theory Spec2Isabelle
  imports Complex_Main "HOL-Library.FSet" "HOL-Library.AList"
begin

section \<open>PageRank: the transition model and the two estimators of pagerank.py\<close>

text \<open>
  The development embeds \<^verbatim>\<open>transition_model\<close>, \<^verbatim>\<open>sample_pagerank\<close> and
  \<^verbatim>\<open>iterate_pagerank\<close> of \<^verbatim>\<open>src/pagerank.py\<close>.

  Conventions of the embedding.
  \<^item> A Python \<^verbatim>\<open>dict\<close> keeps its insertion order, and the code iterates over it, so a
    dictionary is an association list; a dictionary has no repeated keys, which the
    theorems state as \<open>distinct (map fst corpus)\<close>.
  \<^item> A Python \<^verbatim>\<open>set\<close> of pages is a finite set (\<open>'p fset\<close>): \<^verbatim>\<open>len\<close> is \<open>fcard\<close>,
    \<^verbatim>\<open>in\<close> is \<open>|\<in>|\<close>, and the truth value of a set is its non-emptiness.
  \<^item> Python's \<^verbatim>\<open>float\<close> arithmetic is idealised as exact arithmetic on \<open>real\<close>: rounding,
    overflow and underflow are not modelled. The constant \<^verbatim>\<open>0.001\<close> is \<open>1 / 1000\<close>.
  \<^item> Every exception the code can raise is a value of \<open>py_error\<close>; a function that can
    raise returns \<open>py_error + 'a\<close>, with \<open>Inl\<close> the exception.
  \<^item> The \<^verbatim>\<open>while True\<close> loop of \<^verbatim>\<open>iterate_pagerank\<close> may run forever, so it is a
    partial function into \<open>option\<close>: \<open>None\<close> is "does not return".
\<close>

subsection \<open>Exceptions and dictionary access\<close>

datatype py_error = ZeroDivisionError | KeyError | IndexError | ValueError | TypeError

type_synonym 'p corpus = "('p \<times> 'p fset) list"
type_synonym 'p ranks = "('p \<times> real) list"

definition py_bind :: "py_error + 'a \<Rightarrow> ('a \<Rightarrow> py_error + 'b) \<Rightarrow> py_error + 'b" where
  "py_bind m f = (case m of Inl e \<Rightarrow> Inl e | Inr x \<Rightarrow> f x)"

text \<open>\<^verbatim>\<open>d[k]\<close>: raises \<^verbatim>\<open>KeyError\<close> when the key is missing.\<close>

definition getitem :: "('k \<times> 'v) list \<Rightarrow> 'k \<Rightarrow> py_error + 'v" where
  "getitem d k = (case map_of d k of None \<Rightarrow> Inl KeyError | Some v \<Rightarrow> Inr v)"

text \<open>\<^verbatim>\<open>a / b\<close>: raises \<^verbatim>\<open>ZeroDivisionError\<close> when the divisor is zero.\<close>

definition truediv :: "real \<Rightarrow> real \<Rightarrow> py_error + real" where
  "truediv a b = (if b = 0 then Inl ZeroDivisionError else Inr (a / b))"

text \<open>A \<^verbatim>\<open>for\<close> loop over a list that updates a state and stops at the first exception.\<close>

fun for_loop :: "('a \<Rightarrow> 's \<Rightarrow> py_error + 's) \<Rightarrow> 'a list \<Rightarrow> 's \<Rightarrow> py_error + 's" where
  "for_loop body [] s = Inr s"
| "for_loop body (x # xs) s = py_bind (body x s) (for_loop body xs)"

subsection \<open>\<^verbatim>\<open>transition_model\<close> (pagerank.py, lines 52 to 84)\<close>

text \<open>
  \<^verbatim>\<open>
  random_factor = (1 - damping_factor) / len(corpus)
  solution = {key: random_factor for key in corpus}
  for web in solution:
      if web in corpus[page]:
          solution[web] += damping_factor / len(corpus[page])
  return solution
  \<close>
\<close>

definition transition_step :: "'p corpus \<Rightarrow> 'p \<Rightarrow> real \<Rightarrow> 'p \<Rightarrow> 'p ranks \<Rightarrow> py_error + 'p ranks" where
  "transition_step corpus page damping_factor web solution =
     py_bind (getitem corpus page) (\<lambda>links.
       if web |\<in>| links then
         py_bind (getitem solution web) (\<lambda>v.
         py_bind (getitem corpus page) (\<lambda>links'.
         py_bind (truediv damping_factor (real (fcard links'))) (\<lambda>inc.
           Inr (AList.update web (v + inc) solution))))
       else Inr solution)"

definition transition_model :: "'p corpus \<Rightarrow> 'p \<Rightarrow> real \<Rightarrow> py_error + 'p ranks" where
  "transition_model corpus page damping_factor =
     py_bind (truediv (1 - damping_factor) (real (length corpus))) (\<lambda>random_factor.
       let solution = map (\<lambda>(key, links). (key, random_factor)) corpus
       in for_loop (transition_step corpus page damping_factor) (map fst solution) solution)"

subsection \<open>The random source\<close>

text \<open>
  \<^verbatim>\<open>random.choice\<close> and \<^verbatim>\<open>random.choices\<close> belong to Python's standard library, not
  to this program. The random source is a parameter \<open>rng :: nat \<Rightarrow> nat\<close>: \<open>rng t\<close> is the
  raw outcome of the \<open>t\<close>-th call, and the element returned is the one at index
  \<open>rng t mod n\<close> of the \<open>n\<close> candidates. Every element of the sequence is the outcome of
  some raw draw, so a theorem for all \<open>rng\<close> covers every run of the program; which
  element is how likely is not modelled, and an element of weight zero is not excluded.
  The library's documented failures are kept: \<^verbatim>\<open>random.choice\<close> of an empty sequence
  raises \<^verbatim>\<open>IndexError\<close>, and \<^verbatim>\<open>random.choices\<close> raises \<^verbatim>\<open>ValueError\<close> when the weights
  do not sum to more than zero.
\<close>

definition random_choice :: "nat \<Rightarrow> 'a list \<Rightarrow> py_error + 'a" where
  "random_choice r seq =
     (if seq = [] then Inl IndexError else Inr (seq ! (r mod length seq)))"

text \<open>\<^verbatim>\<open>random.choices(population, weights)[0]\<close>\<close>

definition random_choices_first :: "nat \<Rightarrow> 'a list \<Rightarrow> real list \<Rightarrow> py_error + 'a" where
  "random_choices_first r population weights =
     (if length weights \<noteq> length population then Inl ValueError
      else if sum_list weights \<le> 0 then Inl ValueError
      else Inr (population ! (r mod length population)))"

subsection \<open>\<^verbatim>\<open>sample_pagerank\<close> (pagerank.py, lines 87 to 148)\<close>

text \<open>
  The body of the sampling loop; the loop state is the pair of the variables
  \<^verbatim>\<open>choice\<close> and \<^verbatim>\<open>sample\<close>, and \<open>i\<close> is the loop counter of \<^verbatim>\<open>range(n - 1)\<close>. The first
  draw of the random source is spent on the first page, so round \<open>i\<close> uses draw \<open>i + 1\<close>.
  \<^verbatim>\<open>
  model = transition_model(corpus, choice, damping_factor)
  options, ponderation = zip(*model.items())
  choice = random.choices(options, ponderation)[0]
  sample.append(choice)
  \<close>
  Unpacking \<^verbatim>\<open>zip(*model.items())\<close> of an empty dictionary raises \<^verbatim>\<open>ValueError\<close>.
\<close>

definition sample_step ::
  "(nat \<Rightarrow> nat) \<Rightarrow> 'p corpus \<Rightarrow> real \<Rightarrow> nat \<Rightarrow> 'p \<times> 'p list \<Rightarrow> py_error + 'p \<times> 'p list" where
  "sample_step rng corpus damping_factor i = (\<lambda>(choice, sample).
     py_bind (transition_model corpus choice damping_factor) (\<lambda>model.
       if model = [] then Inl ValueError
       else
         let options = map fst model; ponderation = map snd model in
         py_bind (random_choices_first (rng (Suc i)) options ponderation) (\<lambda>choice'.
           Inr (choice', sample @ [choice']))))"

text \<open>\<^verbatim>\<open>solution[item] += 1\<close>\<close>

definition count_step :: "'p \<Rightarrow> ('p \<times> int) list \<Rightarrow> py_error + ('p \<times> int) list" where
  "count_step item solution =
     py_bind (getitem solution item) (\<lambda>c. Inr (AList.update item (c + 1) solution))"

text \<open>
  \<^verbatim>\<open>for key in solution: solution[key] /= total_samples\<close>: every count, an \<^verbatim>\<open>int\<close>, is
  replaced in place by the \<^verbatim>\<open>float\<close> quotient.
\<close>

fun normalise :: "('p \<times> int) list \<Rightarrow> nat \<Rightarrow> py_error + 'p ranks" where
  "normalise [] total_samples = Inr []"
| "normalise ((key, c) # rest) total_samples =
     py_bind (truediv (real_of_int c) (real total_samples)) (\<lambda>v.
     py_bind (normalise rest total_samples) (\<lambda>rest'. Inr ((key, v) # rest')))"

text \<open>
  Lines 116 to 135: the first page is drawn uniformly, then \<open>n - 1\<close> pages are drawn from
  the transition model. The value is the final pair of \<^verbatim>\<open>choice\<close> and \<^verbatim>\<open>sample\<close>.
\<close>

definition sample_chain ::
  "(nat \<Rightarrow> nat) \<Rightarrow> 'p corpus \<Rightarrow> real \<Rightarrow> int \<Rightarrow> py_error + 'p \<times> 'p list" where
  "sample_chain rng corpus damping_factor n =
     py_bind (random_choice (rng 0) (map fst corpus)) (\<lambda>choice.
       if n > 1
       then for_loop (sample_step rng corpus damping_factor)
              [0 ..< nat (n - 1)] (choice, [choice])
       else Inr (choice, [choice]))"

definition sample_pagerank ::
  "(nat \<Rightarrow> nat) \<Rightarrow> 'p corpus \<Rightarrow> real \<Rightarrow> int \<Rightarrow> py_error + 'p ranks" where
  "sample_pagerank rng corpus damping_factor n =
     (let options = map fst corpus;
          solution = map (\<lambda>key. (key, 0::int)) options
      in py_bind (sample_chain rng corpus damping_factor n) (\<lambda>(choice, sample).
         py_bind (for_loop count_step sample solution) (\<lambda>solution'.
           normalise solution' (length sample))))"

subsection \<open>\<^verbatim>\<open>iterate_pagerank\<close> (pagerank.py, lines 151 to 212)\<close>

text \<open>
  The body of the inner loop \<^verbatim>\<open>for web in corpus\<close>, on the accumulator \<^verbatim>\<open>addition\<close>:
  \<^verbatim>\<open>
  if page in corpus[web]:
      addition += old_pagerank[web] / len(corpus[web])
  if not corpus[web]:
      addition += old_pagerank[web] / len(corpus)
  \<close>
  The dictionary \<^verbatim>\<open>corpus\<close> is not written between the three reads of \<^verbatim>\<open>corpus[web]\<close>, so
  it is read once.
\<close>

definition addition_step :: "'p corpus \<Rightarrow> 'p ranks \<Rightarrow> 'p \<Rightarrow> 'p \<Rightarrow> real \<Rightarrow> py_error + real" where
  "addition_step corpus old_pagerank page web addition =
     py_bind (getitem corpus web) (\<lambda>links.
     py_bind (if page |\<in>| links
              then py_bind (getitem old_pagerank web) (\<lambda>r.
                   py_bind (truediv r (real (fcard links))) (\<lambda>q. Inr (addition + q)))
              else Inr addition) (\<lambda>addition'.
       if links = {||}
       then py_bind (getitem old_pagerank web) (\<lambda>r.
            py_bind (truediv r (real (length corpus))) (\<lambda>q. Inr (addition' + q)))
       else Inr addition'))"

text \<open>
  The body of the outer loop \<^verbatim>\<open>for page in old_pagerank\<close>, on the dictionary
  \<^verbatim>\<open>new_pagerank\<close>:
  \<^verbatim>\<open>
  addition = 0.0
  for web in corpus: ...
  if addition == 0:
      addition = 1 / len(corpus)
  new_pagerank[page] = (random_factor + damping_factor * addition)
  \<close>
\<close>

definition update_page ::
  "'p corpus \<Rightarrow> real \<Rightarrow> real \<Rightarrow> 'p ranks \<Rightarrow> 'p \<Rightarrow> 'p ranks \<Rightarrow> py_error + 'p ranks" where
  "update_page corpus damping_factor random_factor old_pagerank page new_pagerank =
     py_bind (for_loop (addition_step corpus old_pagerank page) (map fst corpus) 0) (\<lambda>addition.
     py_bind (if addition = 0 then truediv 1 (real (length corpus)) else Inr addition)
       (\<lambda>addition'.
         Inr (AList.update page (random_factor + damping_factor * addition') new_pagerank)))"

definition update_round ::
  "'p corpus \<Rightarrow> real \<Rightarrow> real \<Rightarrow> 'p ranks \<Rightarrow> 'p ranks \<Rightarrow> py_error + 'p ranks" where
  "update_round corpus damping_factor random_factor old_pagerank new_pagerank =
     for_loop (update_page corpus damping_factor random_factor old_pagerank)
       (map fst old_pagerank) new_pagerank"

text \<open>
  \<^verbatim>\<open>all(abs(new_pagerank[page] - old_pagerank[page]) < 0.001 for page in new_pagerank)\<close>;
  \<^verbatim>\<open>all\<close> stops at the first page that fails the test.
\<close>

fun convergence :: "'p ranks \<Rightarrow> 'p ranks \<Rightarrow> 'p list \<Rightarrow> py_error + bool" where
  "convergence new_pagerank old_pagerank [] = Inr True"
| "convergence new_pagerank old_pagerank (page # pages) =
     py_bind (getitem new_pagerank page) (\<lambda>a.
     py_bind (getitem old_pagerank page) (\<lambda>b.
       if \<bar>a - b\<bar> < 1 / 1000 then convergence new_pagerank old_pagerank pages
       else Inr False))"

text \<open>
  The loop \<^verbatim>\<open>while True\<close>. On the way round, \<^verbatim>\<open>old_pagerank = new_pagerank.copy()\<close> makes
  the next round read a copy of the values just computed, while \<^verbatim>\<open>new_pagerank\<close> keeps
  them until they are overwritten.
\<close>

partial_function (option) iterate_loop ::
  "'p corpus \<Rightarrow> real \<Rightarrow> real \<Rightarrow> 'p ranks \<Rightarrow> 'p ranks \<Rightarrow> (py_error + 'p ranks) option" where
  "iterate_loop corpus damping_factor random_factor old_pagerank new_pagerank =
     (case update_round corpus damping_factor random_factor old_pagerank new_pagerank of
        Inl e \<Rightarrow> Some (Inl e)
      | Inr new_pagerank' \<Rightarrow>
          (case convergence new_pagerank' old_pagerank (map fst new_pagerank') of
             Inl e \<Rightarrow> Some (Inl e)
           | Inr converged \<Rightarrow>
               if converged then Some (Inr new_pagerank')
               else iterate_loop corpus damping_factor random_factor
                      new_pagerank' new_pagerank'))"

declare iterate_loop.simps [code]

text \<open>
  \<^verbatim>\<open>{key: float(1 / len(corpus)) for key in corpus}\<close>: the quotient is computed once for
  each key, so not at all for an empty dictionary.
\<close>

fun initial_ranks :: "'p list \<Rightarrow> nat \<Rightarrow> py_error + 'p ranks" where
  "initial_ranks [] n = Inr []"
| "initial_ranks (key # keys) n =
     py_bind (truediv 1 (real n)) (\<lambda>v.
     py_bind (initial_ranks keys n) (\<lambda>rest. Inr ((key, v) # rest)))"

definition iterate_pagerank :: "'p corpus \<Rightarrow> real \<Rightarrow> (py_error + 'p ranks) option" where
  "iterate_pagerank corpus damping_factor =
     (case initial_ranks (map fst corpus) (length corpus) of
        Inl e \<Rightarrow> Some (Inl e)
      | Inr old_pagerank \<Rightarrow>
          (let new_pagerank = map (\<lambda>key. (key, 0::real)) (map fst corpus) in
           case truediv (1 - damping_factor) (real (length corpus)) of
             Inl e \<Rightarrow> Some (Inl e)
           | Inr random_factor \<Rightarrow>
               iterate_loop corpus damping_factor random_factor old_pagerank new_pagerank))"

subsection \<open>The update round as the specification words it\<close>

text \<open>
  \<open>rank_of old w\<close> reads \<open>old_rank[w]\<close> for a page \<open>w\<close> of the graph. \<open>contribution\<close> is
  what the page \<open>w\<close>, with out-links \<open>links\<close>, adds to the page \<open>p\<close>:
  \<open>old_rank[w] / |graph[w]|\<close> when \<open>p \<in> graph[w]\<close>, plus \<open>old_rank[w] / N\<close> when \<open>graph[w]\<close>
  is empty. \<open>addition_of\<close> sums the contributions of all pages, and \<open>new_rank\<close> is the
  recurrence with its substitution of \<open>1 / N\<close> for an addition that is exactly zero.
\<close>

definition rank_of :: "'p ranks \<Rightarrow> 'p \<Rightarrow> real" where
  "rank_of old w = (case map_of old w of None \<Rightarrow> 0 | Some v \<Rightarrow> v)"

definition contribution :: "nat \<Rightarrow> ('p \<Rightarrow> real) \<Rightarrow> 'p \<Rightarrow> 'p \<times> 'p fset \<Rightarrow> real" where
  "contribution N old p = (\<lambda>(w, links).
     (if p |\<in>| links then old w / real (fcard links) else 0)
     + (if links = {||} then old w / real N else 0))"

definition addition_of :: "'p corpus \<Rightarrow> ('p \<Rightarrow> real) \<Rightarrow> 'p \<Rightarrow> real" where
  "addition_of corpus old p = sum_list (map (contribution (length corpus) old p) corpus)"

definition new_rank :: "'p corpus \<Rightarrow> real \<Rightarrow> ('p \<Rightarrow> real) \<Rightarrow> 'p \<Rightarrow> real" where
  "new_rank corpus damping old p =
     (1 - damping) / real (length corpus)
     + damping * (if addition_of corpus old p = 0 then 1 / real (length corpus)
                  else addition_of corpus old p)"

text \<open>The dictionary of the new ranks of all pages, in the order of the graph.\<close>

definition next_ranks :: "'p corpus \<Rightarrow> real \<Rightarrow> 'p ranks \<Rightarrow> 'p ranks" where
  "next_ranks corpus damping old =
     map (\<lambda>key. (key, new_rank corpus damping (rank_of old) key)) (map fst corpus)"

text \<open>
  The ranks before the first round, the ranks after \<open>k\<close> rounds, and the test that ends
  the loop: every page's rank changed by less than \<open>0.001\<close> in the round.
\<close>

definition uniform_ranks :: "'p corpus \<Rightarrow> 'p ranks" where
  "uniform_ranks corpus = map (\<lambda>key. (key, 1 / real (length corpus))) (map fst corpus)"

definition ranks_after :: "'p corpus \<Rightarrow> real \<Rightarrow> nat \<Rightarrow> 'p ranks" where
  "ranks_after corpus damping k = (next_ranks corpus damping ^^ k) (uniform_ranks corpus)"

definition settled :: "'p corpus \<Rightarrow> 'p ranks \<Rightarrow> 'p ranks \<Rightarrow> bool" where
  "settled corpus new old =
     list_all (\<lambda>p. \<bar>rank_of new p - rank_of old p\<bar> < 1 / 1000) (map fst corpus)"

text \<open>
  For the convergence argument: \<open>link_weight N p (w, links)\<close> is the share of the rank of
  \<open>w\<close> that goes to \<open>p\<close>, and \<open>rank_distance\<close> is the sum over the pages of the absolute
  differences of two rank assignments.
\<close>

definition link_weight :: "nat \<Rightarrow> 'p \<Rightarrow> 'p \<times> 'p fset \<Rightarrow> real" where
  "link_weight N p = (\<lambda>(w, links).
     (if p |\<in>| links then 1 / real (fcard links) else 0)
     + (if links = {||} then 1 / real N else 0))"

definition rank_distance :: "'p corpus \<Rightarrow> ('p \<Rightarrow> real) \<Rightarrow> ('p \<Rightarrow> real) \<Rightarrow> real" where
  "rank_distance corpus x y = (\<Sum>p \<leftarrow> map fst corpus. \<bar>x p - y p\<bar>)"

subsection \<open>The three functions on a store of objects\<close>

text \<open>
  In Python the graph is passed by reference, and a callee can write to it. To state what
  a call leaves unchanged, the dictionaries and lists of the program are objects in a
  store, a list of objects addressed by position: a variable holds an address, creating an
  object appends it to the store, and an assignment through a subscript or a call of
  \<^verbatim>\<open>append\<close> replaces the object at the address that the variable holds. A program takes
  the store and returns its outcome, a value or an exception, with the store it leaves.

  The out-link sets are part of the graph object. A dictionary of numbers is one kind of
  object whether it holds counts or ranks: \<^verbatim>\<open>solution[key] /= total_samples\<close> turns the
  one into the other in place. Reading an address that holds no object of the expected
  kind is a \<^verbatim>\<open>TypeError\<close>.

  The statements of a loop body that only compute are the step functions above, applied
  to the objects read from the store; the object that the body assigns to is written back
  at its own address.
\<close>

datatype 'p obj = Graph "'p corpus" | Ranks "'p ranks" | Pages "'p list"

type_synonym 'p store = "'p obj list"
type_synonym ('p, 'a) prog = "'p store \<Rightarrow> (py_error + 'a) \<times> 'p store"

definition s_return :: "'a \<Rightarrow> ('p, 'a) prog" where
  "s_return x = (\<lambda>h. (Inr x, h))"

definition s_lift :: "py_error + 'a \<Rightarrow> ('p, 'a) prog" where
  "s_lift r = (\<lambda>h. (r, h))"

definition s_bind :: "('p, 'a) prog \<Rightarrow> ('a \<Rightarrow> ('p, 'b) prog) \<Rightarrow> ('p, 'b) prog" where
  "s_bind m f = (\<lambda>h. case m h of (Inl e, h') \<Rightarrow> (Inl e, h') | (Inr x, h') \<Rightarrow> f x h')"

definition alloc :: "'p obj \<Rightarrow> ('p, nat) prog" where
  "alloc ob = (\<lambda>h. (Inr (length h), h @ [ob]))"

definition load_graph :: "nat \<Rightarrow> ('p, 'p corpus) prog" where
  "load_graph a = (\<lambda>h.
     if a < length h then (case h ! a of Graph g \<Rightarrow> (Inr g, h) | _ \<Rightarrow> (Inl TypeError, h))
     else (Inl TypeError, h))"

definition load_ranks :: "nat \<Rightarrow> ('p, 'p ranks) prog" where
  "load_ranks a = (\<lambda>h.
     if a < length h then (case h ! a of Ranks r \<Rightarrow> (Inr r, h) | _ \<Rightarrow> (Inl TypeError, h))
     else (Inl TypeError, h))"

definition load_pages :: "nat \<Rightarrow> ('p, 'p list) prog" where
  "load_pages a = (\<lambda>h.
     if a < length h then (case h ! a of Pages ps \<Rightarrow> (Inr ps, h) | _ \<Rightarrow> (Inl TypeError, h))
     else (Inl TypeError, h))"

definition store_obj :: "nat \<Rightarrow> 'p obj \<Rightarrow> ('p, unit) prog" where
  "store_obj a ob = (\<lambda>h.
     if a < length h then (Inr (), h[a := ob]) else (Inl TypeError, h))"

text \<open>A \<^verbatim>\<open>for\<close> loop whose body works on the store and on a local variable.\<close>

fun s_fold :: "('a \<Rightarrow> 's \<Rightarrow> ('p, 's) prog) \<Rightarrow> 'a list \<Rightarrow> 's \<Rightarrow> ('p, 's) prog" where
  "s_fold body [] s = s_return s"
| "s_fold body (x # xs) s = s_bind (body x s) (s_fold body xs)"

text \<open>\<^verbatim>\<open>transition_model\<close>: the loop body assigns to \<^verbatim>\<open>solution[web]\<close>.\<close>

definition st_transition_step ::
  "nat \<Rightarrow> 'p \<Rightarrow> real \<Rightarrow> nat \<Rightarrow> 'p \<Rightarrow> unit \<Rightarrow> ('p, unit) prog" where
  "st_transition_step corpus page damping_factor solution web u =
     s_bind (load_graph corpus) (\<lambda>g.
     s_bind (load_ranks solution) (\<lambda>s.
     s_bind (s_lift (transition_step g page damping_factor web s)) (\<lambda>s'.
       store_obj solution (Ranks s'))))"

definition st_transition_model :: "nat \<Rightarrow> 'p \<Rightarrow> real \<Rightarrow> ('p, nat) prog" where
  "st_transition_model corpus page damping_factor =
     s_bind (load_graph corpus) (\<lambda>g.
     s_bind (s_lift (truediv (1 - damping_factor) (real (length g)))) (\<lambda>random_factor.
     s_bind (alloc (Ranks (map (\<lambda>(key, links). (key, random_factor)) g))) (\<lambda>solution.
     s_bind (load_ranks solution) (\<lambda>s.
     s_bind (s_fold (st_transition_step corpus page damping_factor solution) (map fst s) ())
       (\<lambda>u. s_return solution)))))"

text \<open>\<^verbatim>\<open>sample_pagerank\<close>: it appends to \<^verbatim>\<open>sample\<close> and assigns to \<^verbatim>\<open>solution[item]\<close>.\<close>

definition append_page :: "nat \<Rightarrow> 'p \<Rightarrow> ('p, unit) prog" where
  "append_page sample choice =
     s_bind (load_pages sample) (\<lambda>ps. store_obj sample (Pages (ps @ [choice])))"

definition st_sample_step ::
  "(nat \<Rightarrow> nat) \<Rightarrow> nat \<Rightarrow> real \<Rightarrow> nat \<Rightarrow> nat \<Rightarrow> 'p \<Rightarrow> ('p, 'p) prog" where
  "st_sample_step rng corpus damping_factor sample i choice =
     s_bind (st_transition_model corpus choice damping_factor) (\<lambda>model.
     s_bind (load_ranks model) (\<lambda>m.
       if m = [] then s_lift (Inl ValueError)
       else
         s_bind (s_lift (random_choices_first (rng (Suc i)) (map fst m) (map snd m)))
           (\<lambda>choice'.
         s_bind (append_page sample choice') (\<lambda>u. s_return choice'))))"

definition st_count_step :: "nat \<Rightarrow> 'p \<Rightarrow> unit \<Rightarrow> ('p, unit) prog" where
  "st_count_step solution item u =
     s_bind (load_ranks solution) (\<lambda>s.
     s_bind (s_lift (getitem s item)) (\<lambda>c.
       store_obj solution (Ranks (AList.update item (c + 1) s))))"

definition st_normalise_step :: "nat \<Rightarrow> nat \<Rightarrow> 'p \<Rightarrow> unit \<Rightarrow> ('p, unit) prog" where
  "st_normalise_step solution total_samples key u =
     s_bind (load_ranks solution) (\<lambda>s.
     s_bind (s_lift (getitem s key)) (\<lambda>c.
     s_bind (s_lift (truediv c (real total_samples))) (\<lambda>v.
       store_obj solution (Ranks (AList.update key v s)))))"

text \<open>Lines 137 to 148: the counting loop, the normalising loop and the return.\<close>

definition st_tally :: "nat \<Rightarrow> nat \<Rightarrow> ('p, nat) prog" where
  "st_tally sample solution =
     s_bind (load_pages sample) (\<lambda>items.
     s_bind (s_fold (st_count_step solution) items ()) (\<lambda>u.
     s_bind (load_ranks solution) (\<lambda>s.
     s_bind (s_fold (st_normalise_step solution (length items)) (map fst s) ()) (\<lambda>u.
       s_return solution))))"

definition st_sample_pagerank ::
  "(nat \<Rightarrow> nat) \<Rightarrow> nat \<Rightarrow> real \<Rightarrow> int \<Rightarrow> ('p, nat) prog" where
  "st_sample_pagerank rng corpus damping_factor n =
     s_bind (alloc (Pages [])) (\<lambda>sample.
     s_bind (load_graph corpus) (\<lambda>g.
     s_bind (alloc (Pages (map fst g))) (\<lambda>options.
     s_bind (load_pages options) (\<lambda>opts.
     s_bind (alloc (Ranks (map (\<lambda>key. (key, 0)) opts))) (\<lambda>solution.
     s_bind (s_lift (random_choice (rng 0) opts)) (\<lambda>choice.
     s_bind (append_page sample choice) (\<lambda>u.
     s_bind (if n > 1
             then s_fold (st_sample_step rng corpus damping_factor sample)
                    [0 ..< nat (n - 1)] choice
             else s_return choice) (\<lambda>choice'.
       st_tally sample solution))))))))"

text \<open>
  \<^verbatim>\<open>iterate_pagerank\<close>: the round assigns to \<^verbatim>\<open>new_pagerank[page]\<close>; between two rounds
  \<^verbatim>\<open>old_pagerank\<close> is bound to a new object, the copy of \<^verbatim>\<open>new_pagerank\<close>.
\<close>

definition st_update_page ::
  "nat \<Rightarrow> real \<Rightarrow> real \<Rightarrow> nat \<Rightarrow> nat \<Rightarrow> 'p \<Rightarrow> unit \<Rightarrow> ('p, unit) prog" where
  "st_update_page corpus damping_factor random_factor old_pagerank new_pagerank page u =
     s_bind (load_graph corpus) (\<lambda>g.
     s_bind (load_ranks old_pagerank) (\<lambda>old.
     s_bind (load_ranks new_pagerank) (\<lambda>new.
     s_bind (s_lift (update_page g damping_factor random_factor old page new)) (\<lambda>new'.
       store_obj new_pagerank (Ranks new')))))"

definition st_update_round ::
  "nat \<Rightarrow> real \<Rightarrow> real \<Rightarrow> nat \<Rightarrow> nat \<Rightarrow> ('p, unit) prog" where
  "st_update_round corpus damping_factor random_factor old_pagerank new_pagerank =
     s_bind (load_ranks old_pagerank) (\<lambda>old.
       s_fold (st_update_page corpus damping_factor random_factor old_pagerank new_pagerank)
         (map fst old) ())"

definition st_convergence :: "nat \<Rightarrow> nat \<Rightarrow> ('p, bool) prog" where
  "st_convergence old_pagerank new_pagerank =
     s_bind (load_ranks new_pagerank) (\<lambda>new.
     s_bind (load_ranks old_pagerank) (\<lambda>old.
       s_lift (convergence new old (map fst new))))"

definition st_copy :: "nat \<Rightarrow> ('p, nat) prog" where
  "st_copy new_pagerank = s_bind (load_ranks new_pagerank) (\<lambda>new. alloc (Ranks new))"

partial_function (option) st_iterate_loop ::
  "nat \<Rightarrow> real \<Rightarrow> real \<Rightarrow> nat \<Rightarrow> nat \<Rightarrow> 'p store \<Rightarrow> ((py_error + nat) \<times> 'p store) option" where
  "st_iterate_loop corpus damping_factor random_factor old_pagerank new_pagerank h =
     (case st_update_round corpus damping_factor random_factor old_pagerank new_pagerank h of
        (Inl e, h1) \<Rightarrow> Some (Inl e, h1)
      | (Inr u, h1) \<Rightarrow>
          (case st_convergence old_pagerank new_pagerank h1 of
             (Inl e, h2) \<Rightarrow> Some (Inl e, h2)
           | (Inr converged, h2) \<Rightarrow>
               if converged then Some (Inr new_pagerank, h2)
               else
                 (case st_copy new_pagerank h2 of
                    (Inl e, h3) \<Rightarrow> Some (Inl e, h3)
                  | (Inr old_pagerank', h3) \<Rightarrow>
                      st_iterate_loop corpus damping_factor random_factor
                        old_pagerank' new_pagerank h3)))"

declare st_iterate_loop.simps [code]

definition st_iterate_setup :: "nat \<Rightarrow> real \<Rightarrow> ('p, nat \<times> nat \<times> real) prog" where
  "st_iterate_setup corpus damping_factor =
     s_bind (load_graph corpus) (\<lambda>g.
     s_bind (s_lift (initial_ranks (map fst g) (length g))) (\<lambda>r.
     s_bind (alloc (Ranks r)) (\<lambda>old_pagerank.
     s_bind (alloc (Ranks (map (\<lambda>key. (key, 0)) (map fst g)))) (\<lambda>new_pagerank.
     s_bind (s_lift (truediv (1 - damping_factor) (real (length g)))) (\<lambda>random_factor.
       s_return (old_pagerank, new_pagerank, random_factor))))))"

definition st_iterate_pagerank ::
  "nat \<Rightarrow> real \<Rightarrow> 'p store \<Rightarrow> ((py_error + nat) \<times> 'p store) option" where
  "st_iterate_pagerank corpus damping_factor h =
     (case st_iterate_setup corpus damping_factor h of
        (Inl e, h1) \<Rightarrow> Some (Inl e, h1)
      | (Inr (old_pagerank, new_pagerank, random_factor), h1) \<Rightarrow>
          st_iterate_loop corpus damping_factor random_factor old_pagerank new_pagerank h1)"

text \<open>
  The counting and the normalising statements of \<^verbatim>\<open>sample_pagerank\<close> as steps on a
  dictionary of numbers, and the counts read as such a dictionary.
\<close>

definition count_step_real :: "'p \<Rightarrow> 'p ranks \<Rightarrow> py_error + 'p ranks" where
  "count_step_real item s =
     py_bind (getitem s item) (\<lambda>c. Inr (AList.update item (c + 1) s))"

definition normalise_step :: "nat \<Rightarrow> 'p \<Rightarrow> 'p ranks \<Rightarrow> py_error + 'p ranks" where
  "normalise_step total_samples key s =
     py_bind (getitem s key) (\<lambda>c.
     py_bind (truediv c (real total_samples)) (\<lambda>v. Inr (AList.update key v s)))"

definition of_counts :: "('p \<times> int) list \<Rightarrow> 'p ranks" where
  "of_counts sol = map (\<lambda>(key, c). (key, real_of_int c)) sol"

text \<open>
  \<open>keeps n m\<close>: run on a store of \<open>n\<close> objects or more, the program \<open>m\<close> leaves the first
  \<open>n\<close> objects as they are, whether it returns or raises.
\<close>

definition keeps :: "nat \<Rightarrow> ('p, 'a) prog \<Rightarrow> bool" where
  "keeps n m =
     (\<forall>h. n \<le> length h \<longrightarrow> n \<le> length (snd (m h)) \<and> take n (snd (m h)) = take n h)"

subsection \<open>Concrete graphs\<close>

text \<open>The graph of \<^verbatim>\<open>test_transition_model\<close> in \<^verbatim>\<open>test_pagerank.py\<close>.\<close>

definition test_corpus :: "string corpus" where
  "test_corpus =
     [(''1.html'', {|''2.html'', ''3.html''|}),
      (''2.html'', {|''3.html''|}),
      (''3.html'', {|''2.html''|})]"

text \<open>A graph whose first page has no out-links.\<close>

definition dangling_corpus :: "string corpus" where
  "dangling_corpus = [(''1.html'', {||}), (''2.html'', {|''1.html''|})]"

text \<open>Two pages that link to each other.\<close>

definition two_cycle :: "string corpus" where
  "two_cycle = [(''1.html'', {|''2.html''|}), (''2.html'', {|''1.html''|})]"

section \<open>Properties\<close>

subsection \<open>Exceptions, dictionaries and loops\<close>

lemma py_bind_Inr [simp]: "py_bind (Inr x) f = f x"
  by (simp add: py_bind_def)

lemma py_bind_Inl [simp]: "py_bind (Inl e) f = Inl e"
  by (simp add: py_bind_def)

lemma getitem_Some: "map_of d k = Some v \<Longrightarrow> getitem d k = Inr v"
  by (simp add: getitem_def)

lemma getitem_None: "map_of d k = None \<Longrightarrow> getitem d k = Inl KeyError"
  by (simp add: getitem_def)

lemma truediv_nonzero: "b \<noteq> 0 \<Longrightarrow> truediv a b = Inr (a / b)"
  by (simp add: truediv_def)

lemma fcard_pos_of_member: "x |\<in>| A \<Longrightarrow> real (fcard A) \<noteq> 0"
  by auto

text \<open>Assigning to a key that is present rewrites its entry where it stands.\<close>

lemma update_as_map:
  "distinct (map fst al) \<Longrightarrow> map_of al k = Some v \<Longrightarrow>
   AList.update k w al = map (\<lambda>(k', v'). (k', if k' = k then w else v')) al"
proof (induction al)
  case Nil
  then show ?case by simp
next
  case (Cons a al)
  obtain k0 v0 where a: "a = (k0, v0)" by (cases a)
  show ?case
  proof (cases "k0 = k")
    case True
    with Cons.prems a have "k \<notin> fst ` set al" by simp
    then have "map (\<lambda>(k', v'). (k', if k' = k then w else v')) al = al"
      by (induction al) (auto)
    with True a show ?thesis by simp
  next
    case False
    with Cons a show ?thesis by simp
  qed
qed

text \<open>
  A loop that visits distinct keys of a dictionary and rewrites, at each, the entry of the
  key it visits: the outcome is the dictionary with every visited entry rewritten once.
\<close>

lemma for_loop_pointwise:
  assumes body: "\<And>k s v. k \<in> set ks \<Longrightarrow> map_of s k = Some v \<Longrightarrow>
                   body k s = Inr (AList.update k (g k v) s)"
    and "distinct ks" and "distinct (map fst s)" and "set ks \<subseteq> fst ` set s"
  shows "for_loop body ks s = Inr (map (\<lambda>(k, v). (k, if k \<in> set ks then g k v else v)) s)"
  using assms
proof (induction ks arbitrary: s)
  case Nil
  then show ?case by simp
next
  case (Cons x ks)
  from Cons.prems(4) have "x \<in> fst ` set s" by simp
  with Cons.prems(3) obtain v where v: "map_of s x = Some v"
    by (metis domD dom_map_of_conv_image_fst)
  let ?s1 = "map (\<lambda>(k', v'). (k', if k' = x then g x v else v')) s"
  have step: "body x s = Inr ?s1"
    using Cons.prems(1)[of x s v] v update_as_map[OF Cons.prems(3) v] by simp
  have keys1: "map fst ?s1 = map fst s" by (induction s) auto
  have "for_loop body ks ?s1 = Inr (map (\<lambda>(k, v). (k, if k \<in> set ks then g k v else v)) ?s1)"
  proof (rule Cons.IH)
    show "body k s' = Inr (AList.update k (g k v') s')"
      if "k \<in> set ks" "map_of s' k = Some v'" for k s' v'
      using that Cons.prems(1)[of k s' v'] by simp
    show "distinct ks" using Cons.prems(2) by simp
    show "distinct (map fst ?s1)" by (simp only: keys1 Cons.prems(3))
    have "fst ` set ?s1 = fst ` set s" by (metis keys1 list.set_map)
    then show "set ks \<subseteq> fst ` set ?s1" using Cons.prems(4) by simp
  qed
  moreover have "map (\<lambda>(k, v). (k, if k \<in> set ks then g k v else v)) ?s1
      = map (\<lambda>(k, v). (k, if k \<in> set (x # ks) then g k v else v)) s"
  proof -
    have "b = v" if "(x, b) \<in> set s" for b
      using that v Cons.prems(3) by (simp add: map_of_eq_Some_iff)
    then show ?thesis using Cons.prems(2) by auto
  qed
  ultimately show ?case using step by simp
qed

lemma map_of_map_keys:
  "p \<in> fst ` set al \<Longrightarrow> map_of (map (\<lambda>(k, v). (k, f k)) al) p = Some (f p)"
  by (induction al) auto

subsection \<open>The transition model\<close>

lemma transition_step_update:
  assumes "map_of corpus page = Some links" and "map_of s k = Some v"
  shows "transition_step corpus page d k s =
     Inr (AList.update k (if k |\<in>| links then v + d / real (fcard links) else v) s)"
proof (cases "k |\<in>| links")
  case True
  then have "real (fcard links) \<noteq> 0" by (rule fcard_pos_of_member)
  with True assms show ?thesis
    by (simp add: transition_step_def getitem_Some truediv_nonzero)
next
  case False
  with assms show ?thesis
    by (simp add: transition_step_def getitem_Some AList.update_triv)
qed

lemma transition_model_closed:
  assumes dist: "distinct (map fst corpus)" and page: "map_of corpus page = Some links"
  shows "transition_model corpus page d =
     Inr (map (\<lambda>(key, out). (key, (1 - d) / real (length corpus)
            + (if key |\<in>| links then d / real (fcard links) else 0))) corpus)"
proof -
  let ?rf = "(1 - d) / real (length corpus)"
  let ?init = "map (\<lambda>(key, out). (key, ?rf)) corpus"
  let ?g = "\<lambda>k v. if k |\<in>| links then v + d / real (fcard links) else v"
  from page have ne: "corpus \<noteq> []" by auto
  have keys: "map fst ?init = map fst corpus" by (induction corpus) auto
  have loop: "for_loop (transition_step corpus page d) (map fst corpus) ?init =
        Inr (map (\<lambda>(k, v). (k, if k \<in> set (map fst corpus) then ?g k v else v)) ?init)"
  proof (rule for_loop_pointwise)
    show "transition_step corpus page d k s = Inr (AList.update k (?g k v) s)"
      if "map_of s k = Some v" for k s v
      using transition_step_update[OF page that] .
    show "distinct (map fst corpus)" by (rule dist)
    show "distinct (map fst ?init)" by (simp only: keys dist)
    show "set (map fst corpus) \<subseteq> fst ` set ?init" by (metis keys list.set_map order_refl)
  qed
  have final: "map (\<lambda>(k, v). (k, if k \<in> set (map fst corpus) then ?g k v else v)) ?init
     = map (\<lambda>(key, out). (key, ?rf + (if key |\<in>| links then d / real (fcard links) else 0)))
         corpus"
    unfolding map_map by (rule map_cong[OF refl]) force
  have "transition_model corpus page d =
      for_loop (transition_step corpus page d) (map fst ?init) ?init"
    using ne by (simp add: transition_model_def truediv_nonzero Let_def del: map_map)
  then show ?thesis by (simp only: keys loop final)
qed

text \<open>
  Claim C2. For a graph with at least one page and a current page that is a key of the
  graph, \<^verbatim>\<open>transition_model\<close> returns a dictionary with the keys of the graph, in the
  graph's order, in which every page has the base probability \<open>(1 - damping) / N\<close>, and
  each member of \<open>graph[current_page]\<close> has \<open>damping / |graph[current_page]|\<close> on top of
  it; when \<open>graph[current_page]\<close> is empty every page has the base probability and nothing
  more. This holds for every damping factor, so for those of \<open>[0, 1]\<close>.
\<close>

theorem transition_model_distribution:
  assumes "distinct (map fst corpus)" and "map_of corpus page = Some links"
  shows "\<exists>solution. transition_model corpus page damping = Inr solution
     \<and> map fst solution = map fst corpus
     \<and> (\<forall>p \<in> fst ` set corpus. map_of solution p =
           Some ((1 - damping) / real (length corpus)
                 + (if p |\<in>| links then damping / real (fcard links) else 0)))
     \<and> (links = {||} \<longrightarrow>
          (\<forall>p \<in> fst ` set corpus. map_of solution p =
             Some ((1 - damping) / real (length corpus))))"
proof -
  let ?f = "\<lambda>key. (1 - damping) / real (length corpus)
                 + (if key |\<in>| links then damping / real (fcard links) else 0)"
  let ?solution = "map (\<lambda>(key, out). (key, ?f key)) corpus"
  have "transition_model corpus page damping = Inr ?solution"
    by (rule transition_model_closed[OF assms])
  moreover have "map fst ?solution = map fst corpus"
    by (induction corpus) auto
  moreover have vals: "\<forall>p \<in> fst ` set corpus. map_of ?solution p = Some (?f p)"
    by (simp add: map_of_map_keys)
  moreover have "links = {||} \<longrightarrow> (\<forall>p \<in> fst ` set corpus. map_of ?solution p =
             Some ((1 - damping) / real (length corpus)))"
  proof (intro impI ballI)
    fix p
    assume e: "links = {||}" and p: "p \<in> fst ` set corpus"
    from vals p have "map_of ?solution p = Some (?f p)" by blast
    moreover have "?f p = (1 - damping) / real (length corpus)" by (simp add: e)
    ultimately show "map_of ?solution p = Some ((1 - damping) / real (length corpus))"
      by (simp only:)
  qed
  ultimately show ?thesis by blast
qed

theorem transition_model_distribution_witness:
  "distinct (map fst test_corpus)
   \<and> map_of test_corpus ''1.html'' = Some {|''2.html'', ''3.html''|}
   \<and> (\<exists>solution. transition_model test_corpus ''1.html'' (85 / 100) = Inr solution
        \<and> map fst solution = [''1.html'', ''2.html'', ''3.html'']
        \<and> map_of solution ''1.html'' = Some (5 / 100)
        \<and> map_of solution ''2.html'' = Some (475 / 1000)
        \<and> map_of solution ''3.html'' = Some (475 / 1000))"
proof -
  have h1: "distinct (map fst test_corpus)"
    by (simp add: test_corpus_def)
  have h2: "map_of test_corpus ''1.html'' = Some {|''2.html'', ''3.html''|}"
    by (simp add: test_corpus_def)
  have keys: "fst ` set test_corpus = {''1.html'', ''2.html'', ''3.html''}"
    by (simp add: test_corpus_def)
  have card: "fcard {|''2.html'', ''3.html''|} = 2"
    by (simp add: fcard_finsert_if)
  from transition_model_distribution[OF h1 h2, of "85 / 100"]
  obtain solution where
    s: "transition_model test_corpus ''1.html'' (85 / 100) = Inr solution"
    and k: "map fst solution = map fst test_corpus"
    and v: "\<forall>p \<in> fst ` set test_corpus. map_of solution p =
           Some ((1 - 85 / 100) / real (length test_corpus)
                 + (if p |\<in>| {|''2.html'', ''3.html''|}
                    then (85 / 100) / real (fcard {|''2.html'', ''3.html''|}) else 0))"
    by blast
  have "map fst solution = [''1.html'', ''2.html'', ''3.html'']"
    using k by (simp add: test_corpus_def)
  moreover have "map_of solution ''1.html'' = Some (5 / 100)"
    using v keys card by (simp add: test_corpus_def)
  moreover have "map_of solution ''2.html'' = Some (475 / 1000)"
    using v keys card by (simp add: test_corpus_def)
  moreover have "map_of solution ''3.html'' = Some (475 / 1000)"
    using v keys card by (simp add: test_corpus_def)
  ultimately show ?thesis using h1 h2 s by (intro conjI exI[of _ solution])
qed

text \<open>
  Claim C4, at a page without out-links. For the graph
  \<^verbatim>\<open>{"1.html": set(), "2.html": {"1.html"}}\<close>, the current page \<^verbatim>\<open>"1.html"\<close> and the
  damping factor \<open>0.85\<close>, \<^verbatim>\<open>transition_model\<close> returns \<open>0.075\<close> for each of the two
  pages: the values sum to \<open>0.15\<close>, the share \<open>1 - damping\<close>, and not to \<open>1\<close>.
\<close>

theorem transition_model_dangling_sum:
  "transition_model dangling_corpus ''1.html'' (85 / 100)
     = Inr [(''1.html'', 75 / 1000), (''2.html'', 75 / 1000)]
   \<and> sum_list (map snd [(''1.html'', 75 / 1000 :: real), (''2.html'', 75 / 1000)]) = 15 / 100
   \<and> (15 / 100 :: real) \<noteq> 1"
proof -
  have h1: "distinct (map fst dangling_corpus)"
    by (simp add: dangling_corpus_def)
  have h2: "map_of dangling_corpus ''1.html'' = Some {||}"
    by (simp add: dangling_corpus_def)
  have "transition_model dangling_corpus ''1.html'' (85 / 100)
     = Inr [(''1.html'', 75 / 1000), (''2.html'', 75 / 1000)]"
    unfolding transition_model_closed[OF h1 h2] by (simp add: dangling_corpus_def)
  then show ?thesis by simp
qed

subsection \<open>The sampling estimator on one sample or fewer\<close>

lemma normalise_closed:
  "m \<noteq> 0 \<Longrightarrow>
   normalise al m = Inr (map (\<lambda>(key, c). (key, real_of_int c / real m)) al)"
  by (induction al m rule: normalise.induct) (simp_all add: truediv_nonzero)

lemma map_of_tabulate:
  "p \<in> set keys \<Longrightarrow> map_of (map (\<lambda>key. (key, f key)) keys) p = Some (f p)"
  by (induction keys) auto

lemma random_choice_member:
  "seq \<noteq> [] \<Longrightarrow> random_choice r seq = Inr (seq ! (r mod length seq))
     \<and> seq ! (r mod length seq) \<in> set seq"
  by (simp add: random_choice_def)

lemma sample_chain_single:
  assumes "corpus \<noteq> []" and "n \<le> 1"
  shows "sample_chain rng corpus d n =
     Inr (map fst corpus ! (rng 0 mod length corpus),
          [map fst corpus ! (rng 0 mod length corpus)])"
  using assms by (simp add: sample_chain_def random_choice_def)

lemma count_one:
  assumes "distinct keys" and "c \<in> set keys"
  shows "for_loop count_step [c] (map (\<lambda>key. (key, 0::int)) keys)
     = Inr (map (\<lambda>key. (key, if key = c then 1 else 0)) keys)"
proof -
  let ?sol = "map (\<lambda>key. (key, 0::int)) keys"
  have keys: "map fst ?sol = keys" by (induction keys) auto
  have lookup: "map_of ?sol c = Some 0"
    using assms(2) by (induction keys) auto
  have "AList.update c 1 ?sol = map (\<lambda>(k', v'). (k', if k' = c then 1 else v')) ?sol"
    by (rule update_as_map) (simp_all only: keys assms lookup)
  also have "\<dots> = map (\<lambda>key. (key, if key = c then 1 else 0)) keys"
    by (simp add: comp_def)
  finally show ?thesis
    using lookup by (simp add: count_step_def getitem_Some)
qed

lemma sample_pagerank_single:
  assumes ne: "corpus \<noteq> []" and dist: "distinct (map fst corpus)" and n: "n \<le> 1"
  shows "sample_pagerank rng corpus d n =
     Inr (map (\<lambda>key. (key, if key = map fst corpus ! (rng 0 mod length corpus) then 1 else 0))
            (map fst corpus))"
proof -
  let ?c = "map fst corpus ! (rng 0 mod length corpus)"
  have mem: "?c \<in> set (map fst corpus)"
    using ne by simp
  have norm: "normalise (map (\<lambda>key. (key, if key = ?c then 1 else 0)) (map fst corpus))
        (length [?c])
     = Inr (map (\<lambda>key. (key, if key = ?c then 1 else 0)) (map fst corpus))"
    by (simp add: normalise_closed comp_def if_distrib cong: if_cong)
  show ?thesis
    unfolding sample_pagerank_def Let_def sample_chain_single[OF ne n]
    by (simp only: py_bind_Inr split_conv count_one[OF dist mem] norm)
qed

text \<open>
  Claim C8. For a graph with at least one page, whatever the damping factor and the random
  source, \<^verbatim>\<open>sample_pagerank\<close> with \<open>n = 1\<close> returns a one-hot dictionary over the pages of
  the graph: the page drawn by \<^verbatim>\<open>random.choice\<close> has the value \<open>1\<close> and every other page
  the value \<open>0\<close>. The sample holds that one page only: no page is drawn from the
  transition model.
\<close>

theorem sample_pagerank_one_hot:
  assumes "corpus \<noteq> []" and "distinct (map fst corpus)"
  shows "\<exists>first solution.
       random_choice (rng 0) (map fst corpus) = Inr first
     \<and> first \<in> fst ` set corpus
     \<and> sample_chain rng corpus damping 1 = Inr (first, [first])
     \<and> sample_pagerank rng corpus damping 1 = Inr solution
     \<and> map fst solution = map fst corpus
     \<and> map_of solution first = Some 1
     \<and> (\<forall>p \<in> fst ` set corpus. p \<noteq> first \<longrightarrow> map_of solution p = Some 0)"
proof -
  let ?first = "map fst corpus ! (rng 0 mod length corpus)"
  let ?solution = "map (\<lambda>key. (key, if key = ?first then 1 else 0 :: real)) (map fst corpus)"
  have mem: "?first \<in> fst ` set corpus"
    using assms(1) nth_mem[of "rng 0 mod length corpus" "map fst corpus"] by simp
  have lookup: "map_of ?solution p = Some (if p = ?first then 1 else 0)"
    if "p \<in> fst ` set corpus" for p
  proof (rule map_of_tabulate)
    show "p \<in> set (map fst corpus)" using that by simp
  qed
  have "random_choice (rng 0) (map fst corpus) = Inr ?first"
    using assms(1) by (simp add: random_choice_def)
  moreover have "sample_chain rng corpus damping 1 = Inr (?first, [?first])"
    by (rule sample_chain_single[OF assms(1)]) simp
  moreover have "sample_pagerank rng corpus damping 1 = Inr ?solution"
    by (rule sample_pagerank_single[OF assms]) simp
  moreover have "map fst ?solution = map fst corpus"
    by (simp add: comp_def)
  moreover have "map_of ?solution ?first = Some 1"
    using lookup[OF mem] by simp
  moreover have "\<forall>p \<in> fst ` set corpus. p \<noteq> ?first \<longrightarrow> map_of ?solution p = Some 0"
    using lookup by simp
  ultimately show ?thesis using mem by blast
qed

theorem sample_pagerank_one_hot_witness:
  "test_corpus \<noteq> [] \<and> distinct (map fst test_corpus)
   \<and> sample_chain (\<lambda>t. t + 1) test_corpus (85 / 100) 1 = Inr (''2.html'', [''2.html''])
   \<and> sample_pagerank (\<lambda>t. t + 1) test_corpus (85 / 100) 1
        = Inr [(''1.html'', 0), (''2.html'', 1), (''3.html'', 0)]"
proof -
  have h1: "test_corpus \<noteq> []" by (simp add: test_corpus_def)
  have h2: "distinct (map fst test_corpus)" by (simp add: test_corpus_def)
  have keys: "map fst test_corpus = [''1.html'', ''2.html'', ''3.html'']"
    by (simp add: test_corpus_def)
  from sample_pagerank_one_hot[OF h1 h2, of "\<lambda>t. t + 1" "85 / 100"]
  obtain first solution where
    f: "random_choice ((\<lambda>t. t + 1) 0) (map fst test_corpus) = Inr first"
    and c: "sample_chain (\<lambda>t. t + 1) test_corpus (85 / 100) 1 = Inr (first, [first])"
    and s: "sample_pagerank (\<lambda>t. t + 1) test_corpus (85 / 100) 1 = Inr solution"
    and k: "map fst solution = map fst test_corpus"
    and one: "map_of solution first = Some 1"
    and zero: "\<forall>p \<in> fst ` set test_corpus. p \<noteq> first \<longrightarrow> map_of solution p = Some 0"
    by blast
  have first: "first = ''2.html''"
    using f by (simp add: keys random_choice_def)
  obtain a b c' where abc: "solution = [(''1.html'', a), (''2.html'', b), (''3.html'', c')]"
    using k unfolding keys by (auto simp: map_eq_Cons_conv)
  have "b = 1" using one first abc by simp
  moreover have "a = 0" using zero first abc by (simp add: test_corpus_def)
  moreover have "c' = 0" using zero first abc by (simp add: test_corpus_def)
  ultimately show ?thesis using h1 h2 c s first abc by simp
qed

text \<open>
  Claim C6, as stated, fails: with \<open>n = 0\<close> and a graph of three pages
  \<^verbatim>\<open>sample_pagerank\<close> raises nothing and returns a one-hot dictionary.
\<close>

theorem sample_pagerank_zero_samples_counterexample:
  "(0::int) < 1
   \<and> test_corpus \<noteq> []
   \<and> sample_pagerank (\<lambda>t. 0) test_corpus (85 / 100) 0
        = Inr [(''1.html'', 1), (''2.html'', 0), (''3.html'', 0)]
   \<and> \<not> (\<exists>e. sample_pagerank (\<lambda>t. 0) test_corpus (85 / 100) 0 = Inl e)"
proof -
  have h1: "test_corpus \<noteq> []" by (simp add: test_corpus_def)
  have h2: "distinct (map fst test_corpus)" by (simp add: test_corpus_def)
  have "sample_pagerank (\<lambda>t. 0) test_corpus (85 / 100) 0
        = Inr [(''1.html'', 1), (''2.html'', 0), (''3.html'', 0)]"
    unfolding sample_pagerank_single[OF h1 h2, of 0, simplified]
    by (simp add: test_corpus_def)
  then show ?thesis using h1 by simp
qed

text \<open>
  Claim C6, amended. \<^verbatim>\<open>sample_pagerank\<close> checks none of its arguments. On an empty graph
  it fails for every \<open>n\<close> and every damping factor, with the \<^verbatim>\<open>IndexError\<close> that
  \<^verbatim>\<open>random.choice\<close> raises on the empty list of pages: before any page is sampled, and
  with no result. With \<open>n < 1\<close> and a graph of at least one page it does not fail: it
  returns what it returns for \<open>n = 1\<close>.
\<close>

theorem sample_pagerank_no_validation:
  "sample_chain rng ([] :: 'p corpus) damping n = Inl IndexError
   \<and> sample_pagerank rng ([] :: 'p corpus) damping n = Inl IndexError
   \<and> ((corpus :: 'p corpus) \<noteq> [] \<and> distinct (map fst corpus) \<and> n < 1 \<longrightarrow>
        (\<exists>solution. sample_pagerank rng corpus damping n = Inr solution
           \<and> sample_pagerank rng corpus damping 1 = Inr solution))"
proof -
  have "sample_chain rng ([] :: 'p corpus) damping n = Inl IndexError"
    by (simp add: sample_chain_def random_choice_def)
  moreover from this have "sample_pagerank rng ([] :: 'p corpus) damping n = Inl IndexError"
    by (simp add: sample_pagerank_def)
  moreover have "\<exists>solution. sample_pagerank rng corpus damping n = Inr solution
           \<and> sample_pagerank rng corpus damping 1 = Inr solution"
    if "corpus \<noteq> []" "distinct (map fst corpus)" "n < 1"
    using sample_pagerank_single[OF that(1,2), of n rng damping]
      sample_pagerank_single[OF that(1,2), of 1 rng damping] that(3)
    by simp
  ultimately show ?thesis by blast
qed

theorem sample_pagerank_no_validation_witness:
  "sample_pagerank (\<lambda>t. 0) ([] :: string corpus) (85 / 100) 3 = Inl IndexError
   \<and> test_corpus \<noteq> [] \<and> distinct (map fst test_corpus) \<and> (-2 :: int) < 1
   \<and> (\<exists>solution. sample_pagerank (\<lambda>t. 0) test_corpus (85 / 100) (-2) = Inr solution
           \<and> sample_pagerank (\<lambda>t. 0) test_corpus (85 / 100) 1 = Inr solution)"
proof -
  have h1: "test_corpus \<noteq> []" by (simp add: test_corpus_def)
  have h2: "distinct (map fst test_corpus)" by (simp add: test_corpus_def)
  show ?thesis
    using sample_pagerank_no_validation[of "\<lambda>t. 0" "85 / 100" 3 test_corpus]
      sample_pagerank_no_validation[of "\<lambda>t. 0" "85 / 100" "-2" test_corpus] h1 h2
    by simp
qed

subsection \<open>One round of the iterative estimator\<close>

lemma rank_of_Some: "map_of old w = Some v \<Longrightarrow> rank_of old w = v"
  by (simp add: rank_of_def)

lemma map_of_keys_Some:
  assumes "map fst al = keys" and "k \<in> set keys"
  shows "\<exists>v. map_of al k = Some v"
proof -
  from assms have "k \<in> fst ` set al" by (metis list.set_map)
  then show ?thesis by (metis domD dom_map_of_conv_image_fst)
qed

lemma getitem_rank_of:
  assumes "map fst old = keys" and "w \<in> set keys"
  shows "getitem old w = Inr (rank_of old w)"
proof -
  from map_of_keys_Some[OF assms] obtain v where "map_of old w = Some v" ..
  then show ?thesis by (simp add: getitem_Some rank_of_Some)
qed

lemma addition_step_closed:
  assumes dist: "distinct (map fst corpus)"
    and old: "map fst old = map fst corpus"
    and entry: "(w, links) \<in> set corpus"
  shows "addition_step corpus old page w acc
     = Inr (acc + contribution (length corpus) (rank_of old) page (w, links))"
proof -
  from entry have ne: "real (length corpus) \<noteq> 0" by auto
  from dist entry have c: "getitem corpus w = Inr links"
    by (simp add: getitem_Some)
  from entry have "w \<in> set (map fst corpus)" by force
  then have r: "getitem old w = Inr (rank_of old w)"
    by (rule getitem_rank_of[OF old])
  show ?thesis
  proof (cases "page |\<in>| links")
    case True
    then have "real (fcard links) \<noteq> 0" "links \<noteq> {||}"
      by (auto dest: fcard_pos_of_member)
    with True c r show ?thesis
      by (simp add: addition_step_def contribution_def truediv_nonzero)
  next
    case False
    with c r ne show ?thesis
      by (simp add: addition_step_def contribution_def truediv_nonzero)
  qed
qed

lemma addition_loop_closed:
  assumes dist: "distinct (map fst corpus)"
    and old: "map fst old = map fst corpus"
    and sub: "set ws \<subseteq> set corpus"
  shows "for_loop (addition_step corpus old page) (map fst ws) acc
     = Inr (acc + sum_list (map (contribution (length corpus) (rank_of old) page) ws))"
  using sub
proof (induction ws arbitrary: acc)
  case Nil
  then show ?case by simp
next
  case (Cons a ws)
  obtain w links where a: "a = (w, links)" by (cases a)
  with Cons.prems have entry: "(w, links) \<in> set corpus" by simp
  from Cons.prems have "set ws \<subseteq> set corpus" by simp
  note IH = Cons.IH[OF this]
  show ?case
    by (simp add: a addition_step_closed[OF dist old entry] IH add.assoc)
qed

lemma update_page_closed:
  assumes dist: "distinct (map fst corpus)"
    and old: "map fst old = map fst corpus"
    and ne: "corpus \<noteq> []"
  shows "update_page corpus d ((1 - d) / real (length corpus)) old page new
     = Inr (AList.update page (new_rank corpus d (rank_of old) page) new)"
proof -
  have loop: "for_loop (addition_step corpus old page) (map fst corpus) 0
     = Inr (addition_of corpus (rank_of old) page)"
    using addition_loop_closed[OF dist old subset_refl, of page 0]
    by (simp add: addition_of_def)
  from ne have "real (length corpus) \<noteq> 0" by simp
  then show ?thesis
    by (simp add: update_page_def loop new_rank_def truediv_nonzero)
qed

lemma map_fst_next_ranks [simp]: "map fst (next_ranks corpus d old) = map fst corpus"
  by (simp add: next_ranks_def comp_def)

lemma update_round_closed:
  assumes dist: "distinct (map fst corpus)"
    and old: "map fst old = map fst corpus"
    and new: "map fst new = map fst corpus"
    and ne: "corpus \<noteq> []"
  shows "update_round corpus d ((1 - d) / real (length corpus)) old new
     = Inr (next_ranks corpus d old)"
proof -
  let ?g = "\<lambda>k (v::real). new_rank corpus d (rank_of old) k"
  have "for_loop (update_page corpus d ((1 - d) / real (length corpus)) old)
          (map fst corpus) new
     = Inr (map (\<lambda>(k, v). (k, if k \<in> set (map fst corpus) then ?g k v else v)) new)"
  proof (rule for_loop_pointwise)
    show "update_page corpus d ((1 - d) / real (length corpus)) old k s
       = Inr (AList.update k (?g k v) s)" for k s v
      by (rule update_page_closed[OF dist old ne])
    show "distinct (map fst corpus)" by (rule dist)
    show "distinct (map fst new)" by (simp only: new dist)
    show "set (map fst corpus) \<subseteq> fst ` set new" by (metis new list.set_map order_refl)
  qed
  moreover have "map (\<lambda>(k, v). (k, if k \<in> set (map fst corpus) then ?g k v else v)) new
     = map (\<lambda>key. (key, ?g key 0)) (map fst new)"
    unfolding map_map
  proof (rule map_cong[OF refl])
    fix x assume "x \<in> set new"
    then have "fst x \<in> set (map fst corpus)" by (metis new list.set_map imageI)
    then show "(case x of (k, v) \<Rightarrow> (k, if k \<in> set (map fst corpus) then ?g k v else v))
        = ((\<lambda>key. (key, ?g key 0)) \<circ> fst) x"
      by (cases x) simp
  qed
  ultimately show ?thesis
    by (simp only: update_round_def old new next_ranks_def)
qed

text \<open>
  Claim C1. In a graph with at least one page, one round of the update loop of
  \<^verbatim>\<open>iterate_pagerank\<close>, run on the dictionary \<open>old_rank\<close> of the previous round, raises
  nothing and leaves in \<^verbatim>\<open>new_pagerank\<close>, for every page \<open>p\<close>, the value
  \<open>(1 - damping) / N + damping * addition p\<close>, where \<open>addition p\<close> is the sum over all
  pages \<open>w\<close> of \<open>old_rank[w] / |graph[w]|\<close> when \<open>p \<in> graph[w]\<close> plus \<open>old_rank[w] / N\<close>
  when \<open>graph[w]\<close> is empty, and where \<open>1 / N\<close> stands for an \<open>addition p\<close> that is exactly
  zero. The round is synchronous: the values that \<^verbatim>\<open>new_pagerank\<close> held before the round
  (\<open>stale\<close>) have no part in the outcome.
\<close>

theorem update_round_formula:
  assumes "corpus \<noteq> []" and "distinct (map fst corpus)"
    and "map fst old_rank = map fst corpus" and "map fst stale = map fst corpus"
  shows "\<exists>new_pagerank.
       update_round corpus damping ((1 - damping) / real (length corpus)) old_rank stale
         = Inr new_pagerank
     \<and> map fst new_pagerank = map fst corpus
     \<and> (\<forall>p \<in> fst ` set corpus.
          (let addition = (\<Sum>(w, links) \<leftarrow> corpus.
               (if p |\<in>| links then rank_of old_rank w / real (fcard links) else 0)
               + (if links = {||} then rank_of old_rank w / real (length corpus) else 0))
           in map_of new_pagerank p =
              Some ((1 - damping) / real (length corpus)
                    + damping * (if addition = 0 then 1 / real (length corpus) else addition))))"
proof -
  let ?new = "next_ranks corpus damping old_rank"
  have "update_round corpus damping ((1 - damping) / real (length corpus)) old_rank stale
         = Inr ?new"
    by (rule update_round_closed[OF assms(2,3,4,1)])
  moreover have "map fst ?new = map fst corpus"
    by simp
  moreover have "map_of ?new p = Some (new_rank corpus damping (rank_of old_rank) p)"
    if "p \<in> fst ` set corpus" for p
    unfolding next_ranks_def
  proof (rule map_of_tabulate)
    show "p \<in> set (map fst corpus)" using that by simp
  qed
  moreover have "addition_of corpus (rank_of old_rank) p = (\<Sum>(w, links) \<leftarrow> corpus.
               (if p |\<in>| links then rank_of old_rank w / real (fcard links) else 0)
               + (if links = {||} then rank_of old_rank w / real (length corpus) else 0))"
    for p
    by (simp add: addition_of_def contribution_def)
  ultimately show ?thesis
    by (simp add: new_rank_def Let_def)
qed

theorem update_round_formula_witness:
  "test_corpus \<noteq> [] \<and> distinct (map fst test_corpus)
   \<and> (\<exists>new_pagerank.
        update_round test_corpus (85 / 100) ((1 - 85 / 100) / real (length test_corpus))
          [(''1.html'', 1 / 3), (''2.html'', 1 / 3), (''3.html'', 1 / 3)]
          [(''1.html'', 0), (''2.html'', 0), (''3.html'', 0)] = Inr new_pagerank
        \<and> map_of new_pagerank ''1.html'' = Some (1 / 3)
        \<and> map_of new_pagerank ''2.html'' = Some (19 / 40)
        \<and> map_of new_pagerank ''3.html'' = Some (19 / 40))"
proof -
  let ?old = "[(''1.html'', 1 / 3), (''2.html'', 1 / 3), (''3.html'', 1 / 3)] :: string ranks"
  let ?stale = "[(''1.html'', 0), (''2.html'', 0), (''3.html'', 0)] :: string ranks"
  have h1: "test_corpus \<noteq> []" by (simp add: test_corpus_def)
  have h2: "distinct (map fst test_corpus)" by (simp add: test_corpus_def)
  have h3: "map fst ?old = map fst test_corpus" by (simp add: test_corpus_def)
  have h4: "map fst ?stale = map fst test_corpus" by (simp add: test_corpus_def)
  have keys: "fst ` set test_corpus = {''1.html'', ''2.html'', ''3.html''}"
    by (simp add: test_corpus_def)
  from update_round_formula[OF h1 h2 h3 h4, of "85 / 100"]
  obtain new_pagerank where
    r: "update_round test_corpus (85 / 100) ((1 - 85 / 100) / real (length test_corpus))
          ?old ?stale = Inr new_pagerank"
    and v: "\<forall>p \<in> fst ` set test_corpus.
          (let addition = (\<Sum>(w, links) \<leftarrow> test_corpus.
               (if p |\<in>| links then rank_of ?old w / real (fcard links) else 0)
               + (if links = {||} then rank_of ?old w / real (length test_corpus) else 0))
           in map_of new_pagerank p =
              Some ((1 - 85 / 100) / real (length test_corpus)
                    + 85 / 100 * (if addition = 0 then 1 / real (length test_corpus)
                                  else addition)))"
    by blast
  have "map_of new_pagerank ''1.html'' = Some (1 / 3)"
    using bspec[OF v, of "''1.html''"] keys
    by (simp add: test_corpus_def rank_of_def fcard_finsert_if fcard_fempty Let_def)
  moreover have "map_of new_pagerank ''2.html'' = Some (19 / 40)"
    using bspec[OF v, of "''2.html''"] keys
    by (simp add: test_corpus_def rank_of_def fcard_finsert_if fcard_fempty Let_def)
  moreover have "map_of new_pagerank ''3.html'' = Some (19 / 40)"
    using bspec[OF v, of "''3.html''"] keys
    by (simp add: test_corpus_def rank_of_def fcard_finsert_if fcard_fempty Let_def)
  ultimately show ?thesis using h1 h2 r by blast
qed

subsection \<open>The loop of the iterative estimator, round by round\<close>

lemma initial_ranks_closed:
  "n \<noteq> 0 \<Longrightarrow> initial_ranks keys n = Inr (map (\<lambda>key. (key, 1 / real n)) keys)"
  by (induction keys) (simp_all add: truediv_nonzero)

lemma convergence_closed:
  assumes "map fst new = keys" and "map fst old = keys" and "set ks \<subseteq> set keys"
  shows "convergence new old ks
     = Inr (list_all (\<lambda>p. \<bar>rank_of new p - rank_of old p\<bar> < 1 / 1000) ks)"
  using assms(3)
proof (induction ks)
  case Nil
  then show ?case by simp
next
  case (Cons p ks)
  then have p: "p \<in> set keys" and rest: "set ks \<subseteq> set keys" by simp_all
  show ?case
    by (simp add: getitem_rank_of[OF assms(1) p] getitem_rank_of[OF assms(2) p]
        Cons.IH[OF rest])
qed

lemma iterate_loop_unfold:
  assumes dist: "distinct (map fst corpus)"
    and old: "map fst old = map fst corpus"
    and new: "map fst new = map fst corpus"
    and ne: "corpus \<noteq> []"
  shows "iterate_loop corpus d ((1 - d) / real (length corpus)) old new =
     (if settled corpus (next_ranks corpus d old) old
      then Some (Inr (next_ranks corpus d old))
      else iterate_loop corpus d ((1 - d) / real (length corpus))
             (next_ranks corpus d old) (next_ranks corpus d old))"
proof -
  have conv: "convergence (next_ranks corpus d old) old (map fst (next_ranks corpus d old))
     = Inr (settled corpus (next_ranks corpus d old) old)"
    unfolding settled_def map_fst_next_ranks
    by (rule convergence_closed[OF map_fst_next_ranks old subset_refl])
  show ?thesis
    by (subst iterate_loop.simps)
      (simp only: update_round_closed[OF dist old new ne] conv sum.case)
qed

lemma iterate_pagerank_unfold:
  assumes "corpus \<noteq> []"
  shows "iterate_pagerank corpus d =
     iterate_loop corpus d ((1 - d) / real (length corpus)) (uniform_ranks corpus)
       (map (\<lambda>key. (key, 0)) (map fst corpus))"
  using assms
  by (simp add: iterate_pagerank_def initial_ranks_closed truediv_nonzero uniform_ranks_def)

lemma map_fst_uniform_ranks [simp]: "map fst (uniform_ranks corpus) = map fst corpus"
  by (simp add: uniform_ranks_def comp_def)

lemma map_fst_funpow_next [simp]:
  "map fst ((next_ranks corpus d ^^ k) old) = (if k = 0 then map fst old else map fst corpus)"
  by (cases k) simp_all

lemma iterate_loop_runs:
  assumes dist: "distinct (map fst corpus)" and ne: "corpus \<noteq> []"
    and old: "map fst old = map fst corpus"
    and new: "map fst new = map fst corpus"
    and stop: "settled corpus ((next_ranks corpus d ^^ Suc k) old) ((next_ranks corpus d ^^ k) old)"
    and go: "\<forall>j<k. \<not> settled corpus ((next_ranks corpus d ^^ Suc j) old)
                      ((next_ranks corpus d ^^ j) old)"
  shows "iterate_loop corpus d ((1 - d) / real (length corpus)) old new
     = Some (Inr ((next_ranks corpus d ^^ Suc k) old))"
  using old new stop go
proof (induction k arbitrary: old new)
  case 0
  then show ?case
    by (simp add: iterate_loop_unfold[OF dist "0.prems"(1,2) ne])
next
  case (Suc k)
  let ?old' = "next_ranks corpus d old"
  have first: "\<not> settled corpus ?old' old"
    using Suc.prems(4) by (auto dest: spec[of _ 0])
  have keys': "map fst ?old' = map fst corpus" by simp
  have stop': "settled corpus ((next_ranks corpus d ^^ Suc k) ?old')
                 ((next_ranks corpus d ^^ k) ?old')"
    using Suc.prems(3) by (simp add: funpow_swap1)
  have go': "\<forall>j<k. \<not> settled corpus ((next_ranks corpus d ^^ Suc j) ?old')
                      ((next_ranks corpus d ^^ j) ?old')"
  proof (intro allI impI)
    fix j assume "j < k"
    then have "Suc j < Suc k" by simp
    with Suc.prems(4) have "\<not> settled corpus ((next_ranks corpus d ^^ Suc (Suc j)) old)
                      ((next_ranks corpus d ^^ Suc j) old)" by blast
    then show "\<not> settled corpus ((next_ranks corpus d ^^ Suc j) ?old')
                      ((next_ranks corpus d ^^ j) ?old')"
      by (simp add: funpow_swap1)
  qed
  have "iterate_loop corpus d ((1 - d) / real (length corpus)) old new
      = iterate_loop corpus d ((1 - d) / real (length corpus)) ?old' ?old'"
    using first by (simp add: iterate_loop_unfold[OF dist Suc.prems(1,2) ne])
  also have "\<dots> = Some (Inr ((next_ranks corpus d ^^ Suc k) ?old'))"
    by (rule Suc.IH[OF keys' keys' stop' go'])
  also have "(next_ranks corpus d ^^ Suc k) ?old' = (next_ranks corpus d ^^ Suc (Suc k)) old"
    by (simp add: funpow_swap1)
  finally show ?case .
qed

subsection \<open>The update is a contraction\<close>

lemma contribution_weight:
  "contribution N x p = (\<lambda>e. x (fst e) * link_weight N p e)"
  by (rule ext) (simp add: contribution_def link_weight_def algebra_simps split: prod.split)

lemma link_weight_nonneg: "0 \<le> link_weight N p e"
  by (cases e) (simp add: link_weight_def)

lemma addition_of_weights:
  "addition_of corpus x p
     = (\<Sum>e \<leftarrow> corpus. x (fst e) * link_weight (length corpus) p e)"
  by (simp add: addition_of_def contribution_weight)

lemma addition_of_nonneg:
  assumes "\<forall>e \<in> set corpus. 0 \<le> x (fst e)"
  shows "0 \<le> addition_of corpus x p"
  unfolding addition_of_weights
  by (rule sum_list_nonneg) (use assms in \<open>auto simp: link_weight_nonneg\<close>)

lemma addition_of_zero_iff:
  assumes "\<forall>e \<in> set corpus. 0 < x (fst e)"
  shows "addition_of corpus x p = 0
     \<longleftrightarrow> (\<forall>e \<in> set corpus. link_weight (length corpus) p e = 0)"
proof -
  have "addition_of corpus x p = 0
     \<longleftrightarrow> (\<forall>v \<in> set (map (\<lambda>e. x (fst e) * link_weight (length corpus) p e) corpus). v = 0)"
    unfolding addition_of_weights
  proof (rule sum_list_nonneg_eq_0_iff)
    fix v assume "v \<in> set (map (\<lambda>e. x (fst e) * link_weight (length corpus) p e) corpus)"
    then obtain e where "e \<in> set corpus" "v = x (fst e) * link_weight (length corpus) p e"
      by auto
    with assms show "0 \<le> v"
      by (simp add: link_weight_nonneg less_imp_le)
  qed
  also have "\<dots> \<longleftrightarrow> (\<forall>e \<in> set corpus. link_weight (length corpus) p e = 0)"
    using assms by fastforce
  finally show ?thesis .
qed

lemma addition_of_diff_bound:
  "\<bar>addition_of corpus x p - addition_of corpus y p\<bar>
     \<le> (\<Sum>e \<leftarrow> corpus. \<bar>x (fst e) - y (fst e)\<bar> * link_weight (length corpus) p e)"
proof -
  let ?w = "link_weight (length corpus) p"
  have "addition_of corpus x p - addition_of corpus y p
      = (\<Sum>e \<leftarrow> corpus. (x (fst e) - y (fst e)) * ?w e)"
    by (simp add: addition_of_weights sum_list_subtractf[symmetric] algebra_simps)
  also have "\<bar>\<dots>\<bar> \<le> sum_list (map abs (map (\<lambda>e. (x (fst e) - y (fst e)) * ?w e) corpus))"
    by (rule sum_list_abs)
  also have "\<dots> = (\<Sum>e \<leftarrow> corpus. \<bar>x (fst e) - y (fst e)\<bar> * ?w e)"
    by (simp add: comp_def abs_mult link_weight_nonneg)
  finally show ?thesis .
qed

lemma new_rank_diff_bound:
  assumes x: "\<forall>e \<in> set corpus. 0 < x (fst e)" and y: "\<forall>e \<in> set corpus. 0 < y (fst e)"
    and d: "0 \<le> d"
  shows "\<bar>new_rank corpus d x p - new_rank corpus d y p\<bar>
     \<le> d * (\<Sum>e \<leftarrow> corpus. \<bar>x (fst e) - y (fst e)\<bar> * link_weight (length corpus) p e)"
proof -
  let ?S = "\<Sum>e \<leftarrow> corpus. \<bar>x (fst e) - y (fst e)\<bar> * link_weight (length corpus) p e"
  have S: "0 \<le> ?S"
    by (rule sum_list_nonneg) (auto simp: link_weight_nonneg)
  have same: "addition_of corpus x p = 0 \<longleftrightarrow> addition_of corpus y p = 0"
    by (simp only: addition_of_zero_iff[OF x] addition_of_zero_iff[OF y])
  show ?thesis
  proof (cases "addition_of corpus x p = 0")
    case True
    with same have "new_rank corpus d x p = new_rank corpus d y p"
      by (simp add: new_rank_def)
    with S d show ?thesis by simp
  next
    case False
    with same have "new_rank corpus d x p - new_rank corpus d y p
        = d * (addition_of corpus x p - addition_of corpus y p)"
      by (simp add: new_rank_def algebra_simps)
    then have "\<bar>new_rank corpus d x p - new_rank corpus d y p\<bar>
        = d * \<bar>addition_of corpus x p - addition_of corpus y p\<bar>"
      using d by (simp add: abs_mult)
    also have "\<dots> \<le> d * ?S"
      by (rule mult_left_mono[OF addition_of_diff_bound d])
    finally show ?thesis .
  qed
qed

lemma sum_list_swap:
  fixes f :: "'a \<Rightarrow> 'b \<Rightarrow> real"
  shows "(\<Sum>p \<leftarrow> ps. \<Sum>e \<leftarrow> es. f p e) = (\<Sum>e \<leftarrow> es. \<Sum>p \<leftarrow> ps. f p e)"
  by (induction ps) (simp_all add: sum_list_addf)

lemma sum_list_indicator:
  fixes c :: real
  shows "(\<Sum>p \<leftarrow> ps. if P p then c else 0) = real (length (filter P ps)) * c"
  by (induction ps) (simp_all add: algebra_simps)

lemma weight_column_sum:
  assumes dist: "distinct keys" and N: "length keys = N" and pos: "N \<noteq> 0"
  shows "(\<Sum>p \<leftarrow> keys. link_weight N p e) \<le> 1"
proof -
  obtain w links where e: "e = (w, links)" by (cases e)
  have split: "(\<Sum>p \<leftarrow> keys. link_weight N p e)
      = (\<Sum>p \<leftarrow> keys. if p |\<in>| links then 1 / real (fcard links) else 0)
        + (\<Sum>p \<leftarrow> keys. if links = {||} then 1 / real N else 0)"
    by (simp add: e link_weight_def sum_list_addf)
  show ?thesis
  proof (cases "links = {||}")
    case True
    then have "(\<Sum>p \<leftarrow> keys. link_weight N p e) = (\<Sum>p \<leftarrow> keys. 1 / real N)"
      by (simp add: split)
    also have "\<dots> = real (length keys) * (1 / real N)"
      by (simp add: sum_list_triv)
    also have "\<dots> = 1" using N pos by simp
    finally show ?thesis by simp
  next
    case False
    have "length (filter (\<lambda>p. p |\<in>| links) keys) = card (set (filter (\<lambda>p. p |\<in>| links) keys))"
      using dist by (simp add: distinct_card del: set_filter)
    also have "\<dots> \<le> card (fset links)"
      by (rule card_mono) auto
    finally have le: "length (filter (\<lambda>p. p |\<in>| links) keys) \<le> fcard links"
      by (simp add: fcard.rep_eq)
    from False have cpos: "0 < fcard links"
      by (metis fcard_0_eq gr0I)
    have "(\<Sum>p \<leftarrow> keys. link_weight N p e)
        = real (length (filter (\<lambda>p. p |\<in>| links) keys)) * (1 / real (fcard links))"
      using False by (simp add: split sum_list_indicator)
    also have "\<dots> \<le> 1"
      using le cpos by (simp add: divide_le_eq)
    finally show ?thesis .
  qed
qed

lemma new_rank_contraction:
  assumes dist: "distinct (map fst corpus)" and ne: "corpus \<noteq> []"
    and x: "\<forall>e \<in> set corpus. 0 < x (fst e)" and y: "\<forall>e \<in> set corpus. 0 < y (fst e)"
    and d: "0 \<le> d"
  shows "rank_distance corpus (new_rank corpus d x) (new_rank corpus d y)
     \<le> d * rank_distance corpus x y"
proof -
  let ?N = "length corpus"
  let ?keys = "map fst corpus"
  let ?D = "\<lambda>e. \<bar>x (fst e) - y (fst e)\<bar>"
  have "rank_distance corpus (new_rank corpus d x) (new_rank corpus d y)
      \<le> (\<Sum>p \<leftarrow> ?keys. d * (\<Sum>e \<leftarrow> corpus. ?D e * link_weight ?N p e))"
    unfolding rank_distance_def
    by (rule sum_list_mono) (rule new_rank_diff_bound[OF x y d])
  also have "\<dots> = d * (\<Sum>p \<leftarrow> ?keys. \<Sum>e \<leftarrow> corpus. ?D e * link_weight ?N p e)"
    by (simp only: sum_list_const_mult)
  also have "(\<Sum>p \<leftarrow> ?keys. \<Sum>e \<leftarrow> corpus. ?D e * link_weight ?N p e)
      = (\<Sum>e \<leftarrow> corpus. \<Sum>p \<leftarrow> ?keys. ?D e * link_weight ?N p e)"
    by (rule sum_list_swap)
  also have "\<dots> = (\<Sum>e \<leftarrow> corpus. ?D e * (\<Sum>p \<leftarrow> ?keys. link_weight ?N p e))"
    by (simp only: sum_list_const_mult)
  also have "\<dots> \<le> (\<Sum>e \<leftarrow> corpus. ?D e * 1)"
  proof (rule sum_list_mono)
    fix e assume "e \<in> set corpus"
    have "(\<Sum>p \<leftarrow> ?keys. link_weight ?N p e) \<le> 1"
      by (rule weight_column_sum[OF dist]) (use ne in simp_all)
    then show "?D e * (\<Sum>p \<leftarrow> ?keys. link_weight ?N p e) \<le> ?D e * 1"
      by (rule mult_left_mono) simp
  qed
  also have "\<dots> = rank_distance corpus x y"
    by (simp add: rank_distance_def comp_def)
  finally show ?thesis
    using d by (simp add: mult_left_mono)
qed

subsection \<open>The iteration returns\<close>

lemma new_rank_lower:
  assumes "0 \<le> d" and "\<forall>e \<in> set corpus. 0 \<le> x (fst e)"
  shows "(1 - d) / real (length corpus) \<le> new_rank corpus d x p"
proof -
  have "0 \<le> addition_of corpus x p"
    by (rule addition_of_nonneg[OF assms(2)])
  then have "0 \<le> (if addition_of corpus x p = 0 then 1 / real (length corpus)
                  else addition_of corpus x p)"
    by simp
  with assms(1) have "0 \<le> d * (if addition_of corpus x p = 0 then 1 / real (length corpus)
                  else addition_of corpus x p)"
    by (rule mult_nonneg_nonneg)
  then show ?thesis by (simp add: new_rank_def)
qed

lemma new_rank_pos:
  assumes "corpus \<noteq> []" and "0 \<le> d" and "d < 1" and "\<forall>e \<in> set corpus. 0 \<le> x (fst e)"
  shows "0 < new_rank corpus d x p"
proof -
  from assms(1,3) have "0 < (1 - d) / real (length corpus)" by simp
  with new_rank_lower[OF assms(2,4), of p] show ?thesis by linarith
qed

lemma rank_of_next_ranks:
  assumes "p \<in> set (map fst corpus)"
  shows "rank_of (next_ranks corpus d old) p = new_rank corpus d (rank_of old) p"
  unfolding next_ranks_def
  by (rule rank_of_Some) (rule map_of_tabulate[OF assms])

lemma rank_of_uniform_ranks:
  assumes "p \<in> set (map fst corpus)"
  shows "rank_of (uniform_ranks corpus) p = 1 / real (length corpus)"
  unfolding uniform_ranks_def
  by (rule rank_of_Some) (rule map_of_tabulate[OF assms])

lemma ranks_after_Suc:
  "ranks_after corpus d (Suc k) = next_ranks corpus d (ranks_after corpus d k)"
  by (simp add: ranks_after_def)

lemma map_fst_ranks_after [simp]: "map fst (ranks_after corpus d k) = map fst corpus"
  by (cases k) (simp_all add: ranks_after_def)

lemma ranks_after_pos:
  assumes ne: "corpus \<noteq> []" and d: "0 \<le> d" "d < 1"
  shows "\<forall>e \<in> set corpus. 0 < rank_of (ranks_after corpus d k) (fst e)"
proof (induction k)
  case 0
  show ?case
  proof
    fix e assume "e \<in> set corpus"
    then have "fst e \<in> set (map fst corpus)" by simp
    then show "0 < rank_of (ranks_after corpus d 0) (fst e)"
      using ne by (simp add: ranks_after_def rank_of_uniform_ranks)
  qed
next
  case (Suc k)
  show ?case
  proof
    fix e assume "e \<in> set corpus"
    then have mem: "fst e \<in> set (map fst corpus)" by simp
    have "\<forall>e \<in> set corpus. 0 \<le> rank_of (ranks_after corpus d k) (fst e)"
      using Suc.IH by (simp add: less_imp_le)
    from new_rank_pos[OF ne d this]
    show "0 < rank_of (ranks_after corpus d (Suc k)) (fst e)"
      by (simp only: ranks_after_Suc rank_of_next_ranks[OF mem])
  qed
qed

lemma rank_distance_cong:
  assumes "\<And>p. p \<in> set (map fst corpus) \<Longrightarrow> x p = x' p"
    and "\<And>p. p \<in> set (map fst corpus) \<Longrightarrow> y p = y' p"
  shows "rank_distance corpus x y = rank_distance corpus x' y'"
  unfolding rank_distance_def
  by (rule arg_cong[where f = sum_list], rule map_cong[OF refl]) (simp add: assms)

lemma rank_distance_nonneg: "0 \<le> rank_distance corpus x y"
  unfolding rank_distance_def by (rule sum_list_nonneg) auto

lemma round_distance_step:
  assumes dist: "distinct (map fst corpus)" and ne: "corpus \<noteq> []" and d: "0 \<le> d" "d < 1"
  shows "rank_distance corpus (rank_of (ranks_after corpus d (Suc (Suc k))))
           (rank_of (ranks_after corpus d (Suc k)))
     \<le> d * rank_distance corpus (rank_of (ranks_after corpus d (Suc k)))
           (rank_of (ranks_after corpus d k))"
proof -
  let ?x = "rank_of (ranks_after corpus d (Suc k))"
  let ?y = "rank_of (ranks_after corpus d k)"
  have "rank_distance corpus (rank_of (ranks_after corpus d (Suc (Suc k)))) ?x
      = rank_distance corpus (new_rank corpus d ?x) (new_rank corpus d ?y)"
    by (rule rank_distance_cong) (simp_all only: ranks_after_Suc rank_of_next_ranks)
  also have "\<dots> \<le> d * rank_distance corpus ?x ?y"
    by (rule new_rank_contraction[OF dist ne ranks_after_pos[OF ne d]
          ranks_after_pos[OF ne d] d(1)])
  finally show ?thesis .
qed

lemma round_distance_geometric:
  assumes dist: "distinct (map fst corpus)" and ne: "corpus \<noteq> []" and d: "0 \<le> d" "d < 1"
  shows "rank_distance corpus (rank_of (ranks_after corpus d (Suc k)))
           (rank_of (ranks_after corpus d k))
     \<le> d ^ k * rank_distance corpus (rank_of (ranks_after corpus d (Suc 0)))
           (rank_of (ranks_after corpus d 0))"
proof (induction k)
  case 0
  show ?case by simp
next
  case (Suc k)
  have "rank_distance corpus (rank_of (ranks_after corpus d (Suc (Suc k))))
           (rank_of (ranks_after corpus d (Suc k)))
      \<le> d * rank_distance corpus (rank_of (ranks_after corpus d (Suc k)))
           (rank_of (ranks_after corpus d k))"
    by (rule round_distance_step[OF dist ne d])
  also have "\<dots> \<le> d * (d ^ k * rank_distance corpus (rank_of (ranks_after corpus d (Suc 0)))
           (rank_of (ranks_after corpus d 0)))"
    by (rule mult_left_mono[OF Suc.IH d(1)])
  finally show ?case by (simp add: mult.assoc)
qed

lemma member_le_rank_distance:
  assumes "p \<in> set (map fst corpus)"
  shows "\<bar>x p - y p\<bar> \<le> rank_distance corpus x y"
  unfolding rank_distance_def
  by (rule member_le_sum_list) (use assms in auto)

lemma settled_of_distance:
  assumes "rank_distance corpus (rank_of new) (rank_of old) < 1 / 1000"
  shows "settled corpus new old"
  unfolding settled_def list_all_iff
proof
  fix p assume "p \<in> set (map fst corpus)"
  from member_le_rank_distance[OF this, of "rank_of new" "rank_of old"] assms
  show "\<bar>rank_of new p - rank_of old p\<bar> < 1 / 1000" by linarith
qed

lemma eventually_settled:
  assumes dist: "distinct (map fst corpus)" and ne: "corpus \<noteq> []" and d: "0 \<le> d" "d < 1"
  shows "\<exists>k. settled corpus (ranks_after corpus d (Suc k)) (ranks_after corpus d k)"
proof -
  let ?D = "rank_distance corpus (rank_of (ranks_after corpus d (Suc 0)))
              (rank_of (ranks_after corpus d 0))"
  have D: "0 \<le> ?D" by (rule rank_distance_nonneg)
  have "\<exists>k. d ^ k * ?D < 1 / 1000"
  proof (cases "?D = 0")
    case True
    then show ?thesis by simp
  next
    case False
    with D have pos: "0 < 1 / 1000 / ?D" by simp
    from real_arch_pow_inv[OF pos d(2)] obtain n where "d ^ n < 1 / 1000 / ?D" ..
    with False D have "d ^ n * ?D < 1 / 1000"
      by (simp add: pos_less_divide_eq)
    then show ?thesis ..
  qed
  then obtain k where "d ^ k * ?D < 1 / 1000" ..
  with round_distance_geometric[OF dist ne d, of k]
  have "rank_distance corpus (rank_of (ranks_after corpus d (Suc k)))
           (rank_of (ranks_after corpus d k)) < 1 / 1000"
    by linarith
  then have "settled corpus (ranks_after corpus d (Suc k)) (ranks_after corpus d k)"
    by (rule settled_of_distance)
  then show ?thesis ..
qed

lemma iterate_pagerank_returns:
  assumes dist: "distinct (map fst corpus)" and ne: "corpus \<noteq> []" and d: "0 \<le> d" "d < 1"
  shows "\<exists>k. iterate_pagerank corpus d = Some (Inr (ranks_after corpus d (Suc k)))
     \<and> settled corpus (ranks_after corpus d (Suc k)) (ranks_after corpus d k)
     \<and> (\<forall>j<k. \<not> settled corpus (ranks_after corpus d (Suc j)) (ranks_after corpus d j))"
proof -
  from eventually_settled[OF assms]
  obtain k where stop: "settled corpus (ranks_after corpus d (Suc k)) (ranks_after corpus d k)"
    and go: "\<forall>j<k. \<not> settled corpus (ranks_after corpus d (Suc j)) (ranks_after corpus d j)"
    by (auto simp: exists_least_iff[of "\<lambda>k. settled corpus (ranks_after corpus d (Suc k))
          (ranks_after corpus d k)"])
  have "iterate_loop corpus d ((1 - d) / real (length corpus)) (uniform_ranks corpus)
       (map (\<lambda>key. (key, 0)) (map fst corpus))
     = Some (Inr ((next_ranks corpus d ^^ Suc k) (uniform_ranks corpus)))"
  proof (rule iterate_loop_runs[OF dist ne])
    show "map fst (uniform_ranks corpus) = map fst corpus" by simp
    show "map fst (map (\<lambda>key. (key, 0::real)) (map fst corpus)) = map fst corpus"
      by (simp add: comp_def)
    show "settled corpus ((next_ranks corpus d ^^ Suc k) (uniform_ranks corpus))
            ((next_ranks corpus d ^^ k) (uniform_ranks corpus))"
      using stop by (simp only: ranks_after_def)
    show "\<forall>j<k. \<not> settled corpus ((next_ranks corpus d ^^ Suc j) (uniform_ranks corpus))
                      ((next_ranks corpus d ^^ j) (uniform_ranks corpus))"
      using go by (simp only: ranks_after_def)
  qed
  then have "iterate_pagerank corpus d = Some (Inr (ranks_after corpus d (Suc k)))"
    by (simp only: iterate_pagerank_unfold[OF ne] ranks_after_def)
  with stop go show ?thesis by blast
qed

text \<open>
  Claim C5. For a graph with at least one page and a damping factor \<open>0 \<le> damping < 1\<close>,
  \<^verbatim>\<open>iterate_pagerank\<close> returns: there is a first round, the round \<open>k + 1\<close>, in which the
  rank of every page differs by less than \<open>0.001\<close> from its rank after round \<open>k\<close>, and the
  ranks computed in that round are the result. (Arithmetic is exact, not floating-point.)
\<close>

theorem iterate_pagerank_terminates:
  assumes "corpus \<noteq> []" and "distinct (map fst corpus)"
    and "0 \<le> damping" and "damping < 1"
  shows "\<exists>k. iterate_pagerank corpus damping
           = Some (Inr (ranks_after corpus damping (Suc k)))
     \<and> (\<forall>p \<in> fst ` set corpus.
           \<bar>rank_of (ranks_after corpus damping (Suc k)) p
             - rank_of (ranks_after corpus damping k) p\<bar> < 1 / 1000)
     \<and> (\<forall>j<k. \<exists>p \<in> fst ` set corpus.
           \<not> \<bar>rank_of (ranks_after corpus damping (Suc j)) p
               - rank_of (ranks_after corpus damping j) p\<bar> < 1 / 1000)"
  using iterate_pagerank_returns[OF assms(2,1,3,4)]
  by (simp add: settled_def list_all_iff list_ex_iff Bex_def Ball_def)

theorem iterate_pagerank_terminates_witness:
  "test_corpus \<noteq> [] \<and> distinct (map fst test_corpus)
   \<and> (0::real) \<le> 85 / 100 \<and> (85 / 100 :: real) < 1
   \<and> (\<exists>k. iterate_pagerank test_corpus (85 / 100)
           = Some (Inr (ranks_after test_corpus (85 / 100) (Suc k)))
     \<and> (\<forall>p \<in> fst ` set test_corpus.
           \<bar>rank_of (ranks_after test_corpus (85 / 100) (Suc k)) p
             - rank_of (ranks_after test_corpus (85 / 100) k) p\<bar> < 1 / 1000))"
proof -
  have h1: "test_corpus \<noteq> []" by (simp add: test_corpus_def)
  have h2: "distinct (map fst test_corpus)" by (simp add: test_corpus_def)
  have h3: "(0::real) \<le> 85 / 100" by simp
  have h4: "(85 / 100 :: real) < 1" by simp
  from iterate_pagerank_terminates[OF h1 h2 h3 h4]
  obtain k where
    r: "iterate_pagerank test_corpus (85 / 100)
           = Some (Inr (ranks_after test_corpus (85 / 100) (Suc k)))"
    and c: "\<forall>p \<in> fst ` set test_corpus.
           \<bar>rank_of (ranks_after test_corpus (85 / 100) (Suc k)) p
             - rank_of (ranks_after test_corpus (85 / 100) k) p\<bar> < 1 / 1000"
    by blast
  from r c have "\<exists>k. iterate_pagerank test_corpus (85 / 100)
           = Some (Inr (ranks_after test_corpus (85 / 100) (Suc k)))
     \<and> (\<forall>p \<in> fst ` set test_corpus.
           \<bar>rank_of (ranks_after test_corpus (85 / 100) (Suc k)) p
             - rank_of (ranks_after test_corpus (85 / 100) k) p\<bar> < 1 / 1000)"
    by blast
  with h1 h2 h3 h4 show ?thesis by (intro conjI)
qed

text \<open>
  Claim C10. For a graph with at least one page and a damping factor \<open>0 \<le> damping < 1\<close>,
  \<^verbatim>\<open>iterate_pagerank\<close> returns a dictionary over the pages of the graph in which every
  value is at least \<open>(1 - damping) / N\<close>, and so greater than zero.
\<close>

theorem iterate_pagerank_lower_bound:
  assumes "corpus \<noteq> []" and "distinct (map fst corpus)"
    and "0 \<le> damping" and "damping < 1"
  shows "\<exists>result. iterate_pagerank corpus damping = Some (Inr result)
     \<and> map fst result = map fst corpus
     \<and> (\<forall>(p, v) \<in> set result. (1 - damping) / real (length corpus) \<le> v \<and> 0 < v)"
proof -
  from iterate_pagerank_returns[OF assms(2,1,3,4)]
  obtain k where r: "iterate_pagerank corpus damping
      = Some (Inr (ranks_after corpus damping (Suc k)))"
    by blast
  let ?old = "rank_of (ranks_after corpus damping k)"
  have nonneg: "\<forall>e \<in> set corpus. 0 \<le> ?old (fst e)"
    using ranks_after_pos[OF assms(1,3,4), of k] by (simp add: less_imp_le)
  have "(1 - damping) / real (length corpus) \<le> v \<and> 0 < v"
    if "(p, v) \<in> set (ranks_after corpus damping (Suc k))" for p v
  proof -
    from that have "v = new_rank corpus damping ?old p"
      by (auto simp: ranks_after_Suc next_ranks_def)
    with new_rank_lower[OF assms(3) nonneg, of p] new_rank_pos[OF assms(1,3,4) nonneg, of p]
    show ?thesis by simp
  qed
  with r show ?thesis by auto
qed

theorem iterate_pagerank_lower_bound_witness:
  "test_corpus \<noteq> [] \<and> distinct (map fst test_corpus)
   \<and> (0::real) \<le> 85 / 100 \<and> (85 / 100 :: real) < 1
   \<and> (\<exists>result. iterate_pagerank test_corpus (85 / 100) = Some (Inr result)
     \<and> map fst result = [''1.html'', ''2.html'', ''3.html'']
     \<and> (\<forall>(p, v) \<in> set result. 1 / 20 \<le> v \<and> 0 < v))"
proof -
  have h1: "test_corpus \<noteq> []" by (simp add: test_corpus_def)
  have h2: "distinct (map fst test_corpus)" by (simp add: test_corpus_def)
  have h3: "(0::real) \<le> 85 / 100" by simp
  have h4: "(85 / 100 :: real) < 1" by simp
  have n: "(1 - 85 / 100) / real (length test_corpus) = 1 / 20"
    by (simp add: test_corpus_def)
  have k: "map fst test_corpus = [''1.html'', ''2.html'', ''3.html'']"
    by (simp add: test_corpus_def)
  from iterate_pagerank_lower_bound[OF h1 h2 h3 h4] h1 h2 show ?thesis
    unfolding n k by simp
qed

subsection \<open>The iterative estimator checks no argument\<close>

lemma iterate_loop_result_Inr_aux:
  assumes run: "iterate_loop corpus d rf old new = Some y"
  shows "distinct (map fst corpus) \<longrightarrow> corpus \<noteq> [] \<longrightarrow>
     rf = (1 - d) / real (length corpus) \<longrightarrow>
     map fst old = map fst corpus \<longrightarrow> map fst new = map fst corpus \<longrightarrow> (\<exists>r. y = Inr r)"
proof (rule iterate_loop.raw_induct[where
      P = "\<lambda>corpus d rf old new y. distinct (map fst corpus) \<longrightarrow> corpus \<noteq> [] \<longrightarrow>
         rf = (1 - d) / real (length corpus) \<longrightarrow>
         map fst old = map fst corpus \<longrightarrow> map fst new = map fst corpus \<longrightarrow> (\<exists>r. y = Inr r)",
      OF _ run])
  fix loop :: "'a corpus \<Rightarrow> real \<Rightarrow> real \<Rightarrow> 'a ranks \<Rightarrow> 'a ranks \<Rightarrow> (py_error + 'a ranks) option"
  fix corpus :: "'a corpus" and d rf :: real and old new :: "'a ranks"
    and y :: "py_error + 'a ranks"
  assume IH: "\<And>corpus d rf old new y. loop corpus d rf old new = Some y \<Longrightarrow>
      distinct (map fst corpus) \<longrightarrow> corpus \<noteq> [] \<longrightarrow>
      rf = (1 - d) / real (length corpus) \<longrightarrow>
      map fst old = map fst corpus \<longrightarrow> map fst new = map fst corpus \<longrightarrow> (\<exists>r. y = Inr r)"
  assume body: "(case update_round corpus d rf old new of
        Inl e \<Rightarrow> Some (Inl e)
      | Inr new_pagerank' \<Rightarrow>
          (case convergence new_pagerank' old (map fst new_pagerank') of
             Inl e \<Rightarrow> Some (Inl e)
           | Inr converged \<Rightarrow>
               if converged then Some (Inr new_pagerank')
               else loop corpus d rf new_pagerank' new_pagerank')) = Some y"
  show "distinct (map fst corpus) \<longrightarrow> corpus \<noteq> [] \<longrightarrow>
      rf = (1 - d) / real (length corpus) \<longrightarrow>
      map fst old = map fst corpus \<longrightarrow> map fst new = map fst corpus \<longrightarrow> (\<exists>r. y = Inr r)"
  proof (intro impI)
    assume dist: "distinct (map fst corpus)" and ne: "corpus \<noteq> []"
      and rf: "rf = (1 - d) / real (length corpus)"
      and old: "map fst old = map fst corpus" and new: "map fst new = map fst corpus"
    let ?next = "next_ranks corpus d old"
    have round: "update_round corpus d rf old new = Inr ?next"
      unfolding rf by (rule update_round_closed[OF dist old new ne])
    have conv: "convergence ?next old (map fst corpus) = Inr (settled corpus ?next old)"
      unfolding settled_def
      by (rule convergence_closed[OF map_fst_next_ranks old subset_refl])
    show "\<exists>r. y = Inr r"
    proof (cases "settled corpus ?next old")
      case True
      with body have "Inr ?next = y"
        by (simp add: round conv)
      then show ?thesis by blast
    next
      case False
      with body have "loop corpus d rf ?next ?next = Some y"
        by (simp add: round conv)
      from IH[OF this] dist ne rf show ?thesis by simp
    qed
  qed
qed

lemma iterate_loop_result_Inr:
  assumes "iterate_loop corpus d rf old new = Some y"
    and "distinct (map fst corpus)" and "corpus \<noteq> []"
    and "rf = (1 - d) / real (length corpus)"
    and "map fst old = map fst corpus" and "map fst new = map fst corpus"
  shows "\<exists>r. y = Inr r"
  using iterate_loop_result_Inr_aux[OF assms(1)] assms(2-) by blast

lemma iterate_pagerank_result_Inr:
  assumes "iterate_pagerank corpus d = Some y"
    and "distinct (map fst corpus)" and "corpus \<noteq> []"
  shows "\<exists>r. y = Inr r"
proof (rule iterate_loop_result_Inr)
  show "iterate_loop corpus d ((1 - d) / real (length corpus)) (uniform_ranks corpus)
       (map (\<lambda>key. (key, 0)) (map fst corpus)) = Some y"
    using assms(1) by (simp only: iterate_pagerank_unfold[OF assms(3)])
  show "map fst (map (\<lambda>key. (key, 0::real)) (map fst corpus)) = map fst corpus"
    by (simp add: comp_def)
qed (simp_all add: assms)

text \<open>
  Claim C7, as stated, fails: with the damping factor \<open>1\<close> and two pages that link to each
  other, \<^verbatim>\<open>iterate_pagerank\<close> raises nothing and returns the rank \<open>1 / 2\<close> for each page.
\<close>

theorem iterate_pagerank_damping_one_counterexample:
  "(1::real) \<ge> 1
   \<and> iterate_pagerank two_cycle 1 = Some (Inr [(''1.html'', 1 / 2), (''2.html'', 1 / 2)])
   \<and> \<not> (\<exists>e. iterate_pagerank two_cycle 1 = Some (Inl e))"
proof -
  have "iterate_pagerank two_cycle 1 = Some (Inr [(''1.html'', 1 / 2), (''2.html'', 1 / 2)])"
    by code_simp
  then show ?thesis by simp
qed

text \<open>
  Claim C7, amended. \<^verbatim>\<open>iterate_pagerank\<close> checks neither of its arguments. On an empty
  graph it fails for every damping factor, before any rank is computed, with the
  \<^verbatim>\<open>ZeroDivisionError\<close> of the division by \<^verbatim>\<open>len(corpus)\<close>. On a graph with at least one
  page no damping factor makes it raise: for a damping factor of \<open>1\<close> or more, as for any
  other, it returns a dictionary of ranks or does not return.
\<close>

theorem iterate_pagerank_no_validation:
  "iterate_pagerank ([] :: 'p corpus) damping = Some (Inl ZeroDivisionError)
   \<and> ((corpus :: 'p corpus) \<noteq> [] \<and> distinct (map fst corpus) \<longrightarrow>
        iterate_pagerank corpus damping = None
        \<or> (\<exists>result. iterate_pagerank corpus damping = Some (Inr result)))"
proof -
  have "iterate_pagerank ([] :: 'p corpus) damping = Some (Inl ZeroDivisionError)"
    by (simp add: iterate_pagerank_def truediv_def)
  moreover have "iterate_pagerank corpus damping = None
        \<or> (\<exists>result. iterate_pagerank corpus damping = Some (Inr result))"
    if "corpus \<noteq> []" "distinct (map fst corpus)"
  proof (cases "iterate_pagerank corpus damping")
    case None
    then show ?thesis by simp
  next
    case (Some y)
    from iterate_pagerank_result_Inr[OF Some that(2,1)] Some show ?thesis by auto
  qed
  ultimately show ?thesis by blast
qed

theorem iterate_pagerank_no_validation_witness:
  "iterate_pagerank ([] :: string corpus) (3 / 2) = Some (Inl ZeroDivisionError)
   \<and> two_cycle \<noteq> [] \<and> distinct (map fst two_cycle)
   \<and> (iterate_pagerank two_cycle (3 / 2) = None
        \<or> (\<exists>result. iterate_pagerank two_cycle (3 / 2) = Some (Inr result)))"
proof -
  have h1: "two_cycle \<noteq> []" by (simp add: two_cycle_def)
  have h2: "distinct (map fst two_cycle)" by (simp add: two_cycle_def)
  from iterate_pagerank_no_validation[of "3 / 2" two_cycle] h1 h2
  show ?thesis by blast
qed

subsection \<open>The ranks of the iterative estimator need not sum to one\<close>

lemma test_corpus_additions:
  "addition_of test_corpus x ''1.html'' = 0"
  "addition_of test_corpus x ''2.html'' = x ''1.html'' / 2 + x ''3.html''"
  "addition_of test_corpus x ''3.html'' = x ''1.html'' / 2 + x ''2.html''"
  by (simp_all add: addition_of_def contribution_def test_corpus_def
      fcard_finsert_if fcard_fempty)

lemma test_corpus_ranks_sum:
  assumes "map fst r = map fst test_corpus"
  shows "sum_list (map snd r)
     = rank_of r ''1.html'' + rank_of r ''2.html'' + rank_of r ''3.html''"
proof -
  from assms obtain a b c where "r = [(''1.html'', a), (''2.html'', b), (''3.html'', c)]"
    by (auto simp: test_corpus_def map_eq_Cons_conv)
  then show ?thesis by (simp add: rank_of_def)
qed

lemma test_corpus_round_sum:
  assumes pos: "\<forall>e \<in> set test_corpus. 0 < rank_of r (fst e)"
  shows "sum_list (map snd (next_ranks test_corpus d r))
     = (1 - d) + d / 3
       + d * (rank_of r ''1.html'' + rank_of r ''2.html'' + rank_of r ''3.html'')"
proof -
  let ?x = "rank_of r"
  from pos have x: "0 < ?x ''1.html''" "0 < ?x ''2.html''" "0 < ?x ''3.html''"
    by (simp_all add: test_corpus_def)
  then have nz: "?x ''1.html'' / 2 + ?x ''3.html'' \<noteq> 0" "?x ''1.html'' / 2 + ?x ''2.html'' \<noteq> 0"
    by simp_all
  have n1: "new_rank test_corpus d ?x ''1.html'' = (1 - d) / 3 + d * (1 / 3)"
    by (simp add: new_rank_def test_corpus_additions) (simp add: test_corpus_def)
  have n2: "new_rank test_corpus d ?x ''2.html''
      = (1 - d) / 3 + d * (?x ''1.html'' / 2 + ?x ''3.html'')"
    unfolding new_rank_def test_corpus_additions using nz(1)
    by (simp add: test_corpus_def)
  have n3: "new_rank test_corpus d ?x ''3.html''
      = (1 - d) / 3 + d * (?x ''1.html'' / 2 + ?x ''2.html'')"
    unfolding new_rank_def test_corpus_additions using nz(2)
    by (simp add: test_corpus_def)
  have "sum_list (map snd (next_ranks test_corpus d r))
      = new_rank test_corpus d ?x ''1.html'' + new_rank test_corpus d ?x ''2.html''
        + new_rank test_corpus d ?x ''3.html''"
    by (simp add: next_ranks_def comp_def) (simp add: test_corpus_def)
  then show ?thesis
    unfolding n1 n2 n3 by (simp add: field_simps)
qed

lemma test_corpus_sum_ge_one:
  assumes d: "0 \<le> d" "d < 1"
  shows "1 \<le> sum_list (map snd (ranks_after test_corpus d k))"
proof (induction k)
  case 0
  show ?case
    by (simp add: ranks_after_def uniform_ranks_def test_corpus_def)
next
  case (Suc k)
  have ne: "test_corpus \<noteq> []" by (simp add: test_corpus_def)
  let ?r = "ranks_after test_corpus d k"
  have "sum_list (map snd (ranks_after test_corpus d (Suc k)))
      = (1 - d) + d / 3 + d * sum_list (map snd ?r)"
    unfolding ranks_after_Suc test_corpus_round_sum[OF ranks_after_pos[OF ne d]]
    by (simp add: test_corpus_ranks_sum)
  moreover have "d * 1 \<le> d * sum_list (map snd ?r)"
    by (rule mult_left_mono[OF Suc.IH d(1)])
  ultimately show ?case using d by simp
qed

lemma test_corpus_sum_excess:
  assumes d: "0 \<le> d" "d < 1"
  shows "1 + d / 3 \<le> sum_list (map snd (ranks_after test_corpus d (Suc k)))"
proof -
  have ne: "test_corpus \<noteq> []" by (simp add: test_corpus_def)
  let ?r = "ranks_after test_corpus d k"
  have "sum_list (map snd (ranks_after test_corpus d (Suc k)))
      = (1 - d) + d / 3 + d * sum_list (map snd ?r)"
    unfolding ranks_after_Suc test_corpus_round_sum[OF ranks_after_pos[OF ne d]]
    by (simp add: test_corpus_ranks_sum)
  moreover have "d * 1 \<le> d * sum_list (map snd ?r)"
    by (rule mult_left_mono[OF test_corpus_sum_ge_one[OF d] d(1)])
  ultimately show ?thesis by simp
qed

text \<open>
  Claim C3, at the graph of the repository's test and the damping factor \<open>0.85\<close> of
  \<^verbatim>\<open>main\<close>. No page links to \<^verbatim>\<open>1.html\<close> and no page is without out-links, so the addition
  of \<^verbatim>\<open>1.html\<close> is zero and \<open>1 / N\<close> is put in its place, in every round: rank mass
  is added that no page gave up. \<^verbatim>\<open>iterate_pagerank\<close> returns a dictionary over the three
  pages whose values sum to \<open>1 + 0.85 / 3\<close> at least, which is not within \<open>10\<^sup>-\<^sup>6\<close> of
  \<open>1\<close>.
\<close>

theorem iterate_pagerank_sum_exceeds_one:
  "\<exists>result. iterate_pagerank test_corpus (85 / 100) = Some (Inr result)
     \<and> map fst result = [''1.html'', ''2.html'', ''3.html'']
     \<and> 1 + (85 / 100) / 3 \<le> sum_list (map snd result)
     \<and> \<not> \<bar>sum_list (map snd result) - 1\<bar> \<le> 1 / 1000000"
proof -
  have ne: "test_corpus \<noteq> []" by (simp add: test_corpus_def)
  have dist: "distinct (map fst test_corpus)" by (simp add: test_corpus_def)
  have d: "(0::real) \<le> 85 / 100" "(85 / 100 :: real) < 1" by simp_all
  from iterate_pagerank_returns[OF dist ne d]
  obtain k where r: "iterate_pagerank test_corpus (85 / 100)
      = Some (Inr (ranks_after test_corpus (85 / 100) (Suc k)))"
    by blast
  let ?result = "ranks_after test_corpus (85 / 100) (Suc k)"
  have keys: "map fst ?result = [''1.html'', ''2.html'', ''3.html'']"
    by (simp add: test_corpus_def)
  have sum: "1 + (85 / 100) / 3 \<le> sum_list (map snd ?result)"
    by (rule test_corpus_sum_excess[OF d])
  then have far: "\<not> \<bar>sum_list (map snd ?result) - 1\<bar> \<le> 1 / 1000000"
    by simp
  show ?thesis
    by (rule exI[of _ ?result]) (simp only: r keys sum far simp_thms)
qed

subsection \<open>The graph is left as it was\<close>

lemma keepsI:
  assumes "\<And>h. n \<le> length h \<Longrightarrow> n \<le> length (snd (m h)) \<and> take n (snd (m h)) = take n h"
  shows "keeps n m"
  using assms by (simp add: keeps_def)

lemma keepsD:
  assumes "keeps n m" and "n \<le> length h"
  shows "n \<le> length (snd (m h))" and "take n (snd (m h)) = take n h"
  using assms by (simp_all add: keeps_def)

lemma keeps_return: "keeps n (s_return x)"
  by (simp add: keeps_def s_return_def)

lemma keeps_lift: "keeps n (s_lift r)"
  by (simp add: keeps_def s_lift_def)

lemma keeps_load_graph: "keeps n (load_graph a)"
  by (simp add: keeps_def load_graph_def split: obj.split)

lemma keeps_load_ranks: "keeps n (load_ranks a)"
  by (simp add: keeps_def load_ranks_def split: obj.split)

lemma keeps_load_pages: "keeps n (load_pages a)"
  by (simp add: keeps_def load_pages_def split: obj.split)

lemma keeps_store_obj: "n \<le> a \<Longrightarrow> keeps n (store_obj a ob)"
  by (simp add: keeps_def store_obj_def)

lemma keeps_bind:
  assumes m: "keeps n m" and f: "\<And>x. keeps n (f x)"
  shows "keeps n (s_bind m f)"
proof (rule keepsI)
  fix h :: "'a store"
  assume h: "n \<le> length h"
  obtain r h1 where mh: "m h = (r, h1)" by (cases "m h")
  from keepsD[OF m h] mh have h1: "n \<le> length h1" "take n h1 = take n h" by simp_all
  show "n \<le> length (snd (s_bind m f h)) \<and> take n (snd (s_bind m f h)) = take n h"
  proof (cases r)
    case (Inl e)
    with mh h1 show ?thesis by (simp add: s_bind_def)
  next
    case (Inr x)
    from keepsD[OF f h1(1), of x] h1(2) mh Inr show ?thesis
      by (simp add: s_bind_def)
  qed
qed

lemma keeps_bind_alloc:
  assumes f: "\<And>a. n \<le> a \<Longrightarrow> keeps n (f a)"
  shows "keeps n (s_bind (alloc ob) f)"
proof (rule keepsI)
  fix h :: "'a store"
  assume h: "n \<le> length h"
  then have h1: "n \<le> length (h @ [ob])" by simp
  from keepsD[OF f[OF h] h1] h show
    "n \<le> length (snd (s_bind (alloc ob) f h)) \<and> take n (snd (s_bind (alloc ob) f h)) = take n h"
    by (simp add: s_bind_def alloc_def)
qed

lemma keeps_fold:
  assumes "\<And>x s. keeps n (body x s)"
  shows "keeps n (s_fold body xs s)"
proof (induction xs arbitrary: s)
  case Nil
  show ?case by (simp add: keeps_return)
next
  case (Cons x xs)
  show ?case
    by (simp only: s_fold.simps) (rule keeps_bind[OF assms Cons.IH])
qed

lemma keeps_if:
  "keeps n a \<Longrightarrow> keeps n b \<Longrightarrow> keeps n (if c then a else b)"
  by simp

lemma keeps_transition_step:
  "n \<le> solution \<Longrightarrow> keeps n (st_transition_step corpus page d solution web u)"
  unfolding st_transition_step_def
  by (intro keeps_bind keeps_load_graph keeps_load_ranks keeps_lift keeps_store_obj)

lemma keeps_transition_model: "keeps n (st_transition_model corpus page d)"
  unfolding st_transition_model_def
  by (intro keeps_bind keeps_bind_alloc keeps_load_graph keeps_load_ranks keeps_lift
      keeps_fold keeps_transition_step keeps_return)

lemma keeps_append_page: "n \<le> sample \<Longrightarrow> keeps n (append_page sample choice)"
  unfolding append_page_def
  by (intro keeps_bind keeps_load_pages keeps_store_obj)

lemma keeps_sample_step:
  "n \<le> sample \<Longrightarrow> keeps n (st_sample_step rng corpus d sample i choice)"
  unfolding st_sample_step_def
  by (intro keeps_bind keeps_transition_model keeps_load_ranks keeps_if keeps_lift
      keeps_append_page keeps_return)

lemma keeps_count_step: "n \<le> solution \<Longrightarrow> keeps n (st_count_step solution item u)"
  unfolding st_count_step_def
  by (intro keeps_bind keeps_load_ranks keeps_lift keeps_store_obj)

lemma keeps_normalise_step:
  "n \<le> solution \<Longrightarrow> keeps n (st_normalise_step solution m key u)"
  unfolding st_normalise_step_def
  by (intro keeps_bind keeps_load_ranks keeps_lift keeps_store_obj)

lemma keeps_tally: "n \<le> solution \<Longrightarrow> keeps n (st_tally sample solution)"
  unfolding st_tally_def
  by (intro keeps_bind keeps_load_pages keeps_load_ranks keeps_fold keeps_count_step
      keeps_normalise_step keeps_return)

lemma keeps_sample_pagerank: "keeps n (st_sample_pagerank rng corpus d k)"
  unfolding st_sample_pagerank_def
  by (intro keeps_bind_alloc keeps_bind keeps_load_graph keeps_load_pages
      keeps_lift keeps_append_page keeps_fold keeps_tally
      keeps_return keeps_if keeps_sample_step)

lemma keeps_update_page:
  "n \<le> new \<Longrightarrow> keeps n (st_update_page corpus d rf old new page u)"
  unfolding st_update_page_def
  by (intro keeps_bind keeps_load_graph keeps_load_ranks keeps_lift keeps_store_obj)

lemma keeps_update_round:
  "n \<le> new \<Longrightarrow> keeps n (st_update_round corpus d rf old new)"
  unfolding st_update_round_def
  by (intro keeps_bind keeps_load_ranks keeps_fold keeps_update_page)

lemma keeps_convergence: "keeps n (st_convergence old new)"
  unfolding st_convergence_def
  by (intro keeps_bind keeps_load_ranks keeps_lift)

lemma keeps_copy: "keeps n (st_copy new)"
  unfolding st_copy_def
  by (intro keeps_bind keeps_load_ranks keeps_bind_alloc keeps_return)
    (simp add: keeps_def alloc_def)

lemma keeps_iterate_setup: "keeps n (st_iterate_setup corpus d)"
  unfolding st_iterate_setup_def
  by (intro keeps_bind keeps_bind_alloc keeps_load_graph keeps_lift keeps_return)

lemma iterate_setup_fresh:
  assumes "st_iterate_setup corpus d h = (Inr (old, new, rf), h1)"
  shows "length h \<le> new"
  using assms
  by (auto simp: st_iterate_setup_def s_bind_def s_lift_def s_return_def alloc_def
      load_graph_def split: if_splits obj.splits sum.splits prod.splits)

lemma iterate_loop_keeps_aux:
  assumes run: "st_iterate_loop corpus d rf old new h = Some y"
  shows "\<forall>n. n \<le> new \<longrightarrow> n \<le> length h \<longrightarrow>
     n \<le> length (snd y) \<and> take n (snd y) = take n h"
proof (rule st_iterate_loop.raw_induct[where
      P = "\<lambda>corpus d rf old new h y. \<forall>n. n \<le> new \<longrightarrow> n \<le> length h \<longrightarrow>
         n \<le> length (snd y) \<and> take n (snd y) = take n h",
      OF _ run])
  fix loop :: "nat \<Rightarrow> real \<Rightarrow> real \<Rightarrow> nat \<Rightarrow> nat \<Rightarrow> 'a store
      \<Rightarrow> ((py_error + nat) \<times> 'a store) option"
  fix corpus :: nat and d rf :: real and old new :: nat and h :: "'a store"
    and y :: "(py_error + nat) \<times> 'a store"
  assume IH: "\<And>corpus d rf old new h y. loop corpus d rf old new h = Some y \<Longrightarrow>
      \<forall>n. n \<le> new \<longrightarrow> n \<le> length h \<longrightarrow>
        n \<le> length (snd y) \<and> take n (snd y) = take n h"
  assume body: "(case st_update_round corpus d rf old new h of
        (Inl e, h1) \<Rightarrow> Some (Inl e, h1)
      | (Inr u, h1) \<Rightarrow>
          (case st_convergence old new h1 of
             (Inl e, h2) \<Rightarrow> Some (Inl e, h2)
           | (Inr converged, h2) \<Rightarrow>
               if converged then Some (Inr new, h2)
               else
                 (case st_copy new h2 of
                    (Inl e, h3) \<Rightarrow> Some (Inl e, h3)
                  | (Inr old_pagerank', h3) \<Rightarrow> loop corpus d rf old_pagerank' new h3))) = Some y"
  show "\<forall>n. n \<le> new \<longrightarrow> n \<le> length h \<longrightarrow>
      n \<le> length (snd y) \<and> take n (snd y) = take n h"
  proof (intro allI impI)
    fix n assume new: "n \<le> new" and h: "n \<le> length h"
    obtain r1 h1 where s1: "st_update_round corpus d rf old new h = (r1, h1)"
      by (cases "st_update_round corpus d rf old new h")
    from keepsD[OF keeps_update_round[OF new, of corpus d rf old] h] s1
    have h1: "n \<le> length h1" "take n h1 = take n h" by simp_all
    obtain r2 h2 where s2: "st_convergence old new h1 = (r2, h2)"
      by (cases "st_convergence old new h1")
    from keepsD[OF keeps_convergence[of n old new] h1(1)] s2 h1(2)
    have h2: "n \<le> length h2" "take n h2 = take n h" by simp_all
    obtain r3 h3 where s3: "st_copy new h2 = (r3, h3)"
      by (cases "st_copy new h2")
    from keepsD[OF keeps_copy[of n new] h2(1)] s3 h2(2)
    have h3: "n \<le> length h3" "take n h3 = take n h" by simp_all
    show "n \<le> length (snd y) \<and> take n (snd y) = take n h"
    proof (cases r1)
      case (Inl e)
      with body s1 h1 show ?thesis by auto
    next
      case r1: (Inr u)
      show ?thesis
      proof (cases r2)
        case (Inl e)
        with body s1 s2 r1 h2 show ?thesis by auto
      next
        case r2: (Inr converged)
        show ?thesis
        proof (cases converged)
          case True
          with body s1 s2 r1 r2 h2 show ?thesis by auto
        next
          case False
          show ?thesis
          proof (cases r3)
            case (Inl e)
            with body s1 s2 s3 r1 r2 False h3 show ?thesis by auto
          next
            case (Inr old')
            with body s1 s2 s3 r1 r2 False have "loop corpus d rf old' new h3 = Some y"
              by simp
            from IH[OF this] new h3 show ?thesis by simp
          qed
        qed
      qed
    qed
  qed
qed

lemma iterate_pagerank_keeps:
  assumes "st_iterate_pagerank corpus d h = Some y"
  shows "take (length h) (snd y) = h"
proof -
  obtain r h1 where s: "st_iterate_setup corpus d h = (r, h1)"
    by (cases "st_iterate_setup corpus d h")
  from keepsD[OF keeps_iterate_setup[of "length h" corpus d] order_refl] s
  have h1: "length h \<le> length h1" "take (length h) h1 = h" by simp_all
  show ?thesis
  proof (cases r)
    case (Inl e)
    with assms s h1 show ?thesis by (auto simp: st_iterate_pagerank_def)
  next
    case (Inr t)
    obtain old new rf where t: "t = (old, new, rf)" by (cases t)
    from s Inr t have fresh: "length h \<le> new" by (auto dest: iterate_setup_fresh)
    from assms s Inr t have "st_iterate_loop corpus d rf old new h1 = Some y"
      by (simp add: st_iterate_pagerank_def)
    from iterate_loop_keeps_aux[OF this] fresh h1 show ?thesis by simp
  qed
qed

text \<open>
  Claim C9. Whatever the store and whatever the arguments, a call of \<^verbatim>\<open>transition_model\<close>,
  of \<^verbatim>\<open>sample_pagerank\<close> or of \<^verbatim>\<open>iterate_pagerank\<close> that returns or raises leaves every
  object that was in the store before the call as it was: the graph, with its keys and
  the out-link set of each page, is the same after the call as before. The objects the
  call creates come after them in the store.
\<close>

theorem graph_not_mutated:
  "take (length h) (snd (st_transition_model corpus page damping h)) = h
   \<and> take (length h) (snd (st_sample_pagerank rng corpus damping n h)) = h
   \<and> (case st_iterate_pagerank corpus damping h of
         None \<Rightarrow> True
       | Some (outcome, h') \<Rightarrow> take (length h) h' = h)"
proof -
  have "take (length h) (snd (st_transition_model corpus page damping h)) = h"
    using keepsD(2)[OF keeps_transition_model[of "length h" corpus page damping] order_refl] by simp
  moreover have "take (length h) (snd (st_sample_pagerank rng corpus damping n h)) = h"
    using keepsD(2)[OF keeps_sample_pagerank[of "length h" rng corpus damping n] order_refl] by simp
  moreover have "case st_iterate_pagerank corpus damping h of
         None \<Rightarrow> True
       | Some (outcome, h') \<Rightarrow> take (length h) h' = h"
    using iterate_pagerank_keeps[of corpus damping h]
    by (auto split: option.split)
  ultimately show ?thesis by blast
qed

theorem graph_not_mutated_witness:
  "snd (st_transition_model 0 ''1.html'' (85 / 100) [Graph test_corpus]) ! 0
     = Graph test_corpus
   \<and> snd (st_sample_pagerank (\<lambda>t. t) 0 (85 / 100) 4 [Graph test_corpus]) ! 0
     = Graph test_corpus
   \<and> (\<exists>h'. st_iterate_pagerank 0 (85 / 100) [Graph two_cycle] = Some (Inr 2, h')
        \<and> h' ! 0 = Graph two_cycle)"
proof -
  have first: "h' ! 0 = ob" if "take (length [ob]) h' = [ob]" for h' :: "string store" and ob
  proof -
    have "take (length [ob]) h' ! 0 = h' ! 0" by (rule nth_take) simp
    with that show ?thesis by simp
  qed
  note frame = graph_not_mutated[of "[Graph test_corpus]" 0 "''1.html''" "85 / 100"
      "\<lambda>t. t" 4]
  note frame' = graph_not_mutated[of "[Graph two_cycle]" 0 "''1.html''" "85 / 100"
      "\<lambda>t. t" 4]
  have "snd (st_transition_model 0 ''1.html'' (85 / 100) [Graph test_corpus]) ! 0
     = Graph test_corpus"
    using frame by (intro first) simp
  moreover have "snd (st_sample_pagerank (\<lambda>t. t) 0 (85 / 100) 4 [Graph test_corpus]) ! 0
     = Graph test_corpus"
    using frame by (intro first) simp
  moreover have "\<exists>h'. st_iterate_pagerank 0 (85 / 100) [Graph two_cycle] = Some (Inr 2, h')
        \<and> h' ! 0 = Graph two_cycle"
  proof -
    have run: "st_iterate_pagerank 0 (85 / 100) [Graph two_cycle]
       = Some (Inr 2, [Graph two_cycle,
            Ranks [(''1.html'', 1 / 2), (''2.html'', 1 / 2)],
            Ranks [(''1.html'', 1 / 2), (''2.html'', 1 / 2)]])"
      by code_simp
    with frame' have "take (length [Graph two_cycle]) [Graph two_cycle,
            Ranks [(''1.html'', 1 / 2), (''2.html'', 1 / 2)],
            Ranks [(''1.html'', 1 / 2), (''2.html'', 1 / 2)]] = [Graph two_cycle]"
      by simp
    then have "[Graph two_cycle,
            Ranks [(''1.html'', 1 / 2), (''2.html'', 1 / 2)],
            Ranks [(''1.html'', 1 / 2), (''2.html'', 1 / 2)]] ! 0 = Graph two_cycle"
      by (rule first)
    with run show ?thesis by blast
  qed
  ultimately show ?thesis by blast
qed

subsection \<open>The programs on the store compute what the functions compute\<close>

text \<open>
  The programs on the store and the functions on values are two readings of the same
  source. They agree: run on a store that holds the graph \<open>g\<close> at the address \<open>corpus\<close>,
  a program raises the exception that the function raises on \<open>g\<close>, or returns the address
  of a new object that holds the dictionary that the function returns.
\<close>

lemma s_bind_Inr: "m h = (Inr x, h1) \<Longrightarrow> s_bind m f h = f x h1"
  by (simp add: s_bind_def)

lemma s_bind_Inl: "m h = (Inl e, h1) \<Longrightarrow> s_bind m f h = (Inl e, h1)"
  by (simp add: s_bind_def)

lemma load_graph_at: "a < length h \<Longrightarrow> h ! a = Graph g \<Longrightarrow> load_graph a h = (Inr g, h)"
  by (simp add: load_graph_def)

lemma load_ranks_at: "a < length h \<Longrightarrow> h ! a = Ranks r \<Longrightarrow> load_ranks a h = (Inr r, h)"
  by (simp add: load_ranks_def)

lemma load_pages_at: "a < length h \<Longrightarrow> h ! a = Pages ps \<Longrightarrow> load_pages a h = (Inr ps, h)"
  by (simp add: load_pages_def)

text \<open>
  A loop on the store whose body reads the dictionary at \<open>a\<close>, computes with \<open>step\<close> and
  writes the outcome back at \<open>a\<close> does what the loop of \<open>step\<close> does on the dictionary.
\<close>

lemma s_fold_refines:
  fixes step :: "'x \<Rightarrow> 'p ranks \<Rightarrow> py_error + 'p ranks"
    and body :: "'x \<Rightarrow> unit \<Rightarrow> ('p, unit) prog"
  assumes body: "\<And>x s h. a < length h \<Longrightarrow> h ! a = Ranks s \<Longrightarrow> ok h \<Longrightarrow>
      body x () h = (case step x s of Inl e \<Rightarrow> (Inl e, h)
                     | Inr s' \<Rightarrow> (Inr (), h[a := Ranks s']))"
    and ok: "\<And>h s'. ok h \<Longrightarrow> ok (h[a := Ranks s'])"
  shows "a < length h \<Longrightarrow> h ! a = Ranks s \<Longrightarrow> ok h \<Longrightarrow>
     (case for_loop step xs s of
        Inl e \<Rightarrow> fst (s_fold body xs () h) = Inl e
      | Inr s' \<Rightarrow> s_fold body xs () h = (Inr (), h[a := Ranks s']))"
proof (induction xs arbitrary: s h)
  case Nil
  then show ?case
    by (simp add: s_return_def) (metis list_update_id)
next
  case (Cons x xs)
  show ?case
  proof (cases "step x s")
    case (Inl e)
    with body[OF Cons.prems, of x] show ?thesis
      by (simp add: s_bind_def)
  next
    case (Inr s1)
    let ?h1 = "h[a := Ranks s1]"
    from body[OF Cons.prems, of x] Inr have b: "body x () h = (Inr (), ?h1)" by simp
    have h1: "a < length ?h1" "?h1 ! a = Ranks s1" "ok ?h1"
      using Cons.prems by (simp_all add: ok)
    from Cons.IH[OF h1] show ?thesis
      by (simp add: Inr s_bind_def b split: sum.splits)
  qed
qed

lemma st_transition_model_refines:
  assumes c: "corpus < length h" "h ! corpus = Graph g"
  shows "case transition_model g page d of
           Inl e \<Rightarrow> fst (st_transition_model corpus page d h) = Inl e
         | Inr sol \<Rightarrow> st_transition_model corpus page d h
                        = (Inr (length h), h @ [Ranks sol])"
proof (cases "g = []")
  case True
  then show ?thesis
    by (simp add: transition_model_def truediv_def st_transition_model_def
        s_bind_def load_graph_at[OF c] s_lift_def)
next
  case False
  let ?rf = "(1 - d) / real (length g)"
  let ?init = "map (\<lambda>(key, links). (key, ?rf)) g"
  let ?h0 = "h @ [Ranks ?init]"
  let ?a = "length h"
  have pure: "transition_model g page d
      = for_loop (transition_step g page d) (map fst ?init) ?init"
    using False by (simp add: transition_model_def truediv_nonzero Let_def del: map_map)
  have store: "st_transition_model corpus page d h
      = s_bind (s_fold (st_transition_step corpus page d ?a) (map fst ?init) ())
          (\<lambda>u. s_return ?a) ?h0"
    using False
    by (simp add: st_transition_model_def load_graph_at[OF c] truediv_nonzero
        s_bind_def s_lift_def alloc_def load_ranks_def del: map_map)
  have loop: "case for_loop (transition_step g page d) (map fst ?init) ?init of
        Inl e \<Rightarrow> fst (s_fold (st_transition_step corpus page d ?a) (map fst ?init) () ?h0) = Inl e
      | Inr s' \<Rightarrow> s_fold (st_transition_step corpus page d ?a) (map fst ?init) () ?h0
                  = (Inr (), ?h0[?a := Ranks s'])"
  proof (rule s_fold_refines[where ok = "\<lambda>h. corpus < length h \<and> h ! corpus = Graph g"])
    show "st_transition_step corpus page d ?a x () h'
        = (case transition_step g page d x s of Inl e \<Rightarrow> (Inl e, h')
           | Inr s' \<Rightarrow> (Inr (), h'[?a := Ranks s']))"
      if "?a < length h'" "h' ! ?a = Ranks s" "corpus < length h' \<and> h' ! corpus = Graph g"
      for x s h'
      using that
      by (simp add: st_transition_step_def s_bind_def load_graph_def load_ranks_def
          s_lift_def store_obj_def split: sum.splits)
    show "corpus < length (h'[?a := Ranks s']) \<and> h'[?a := Ranks s'] ! corpus = Graph g"
      if "corpus < length h' \<and> h' ! corpus = Graph g" for h' s'
      using that c(1) by simp
    show "?a < length ?h0" by simp
    show "?h0 ! ?a = Ranks ?init" by simp
    show "corpus < length ?h0 \<and> ?h0 ! corpus = Graph g"
      using c by (simp add: nth_append)
  qed
  show ?thesis
    unfolding pure store using loop
    by (auto simp: s_bind_def s_return_def split: sum.splits prod.splits)
qed

lemma st_update_round_refines:
  assumes c: "corpus < length h" "h ! corpus = Graph g"
    and old: "old < length h" "h ! old = Ranks ol"
    and new: "new < length h" "h ! new = Ranks nw"
    and ne: "corpus \<noteq> new" "old \<noteq> new"
  shows "case update_round g d rf ol nw of
           Inl e \<Rightarrow> fst (st_update_round corpus d rf old new h) = Inl e
         | Inr nw' \<Rightarrow> st_update_round corpus d rf old new h = (Inr (), h[new := Ranks nw'])"
proof -
  have store: "st_update_round corpus d rf old new h
      = s_fold (st_update_page corpus d rf old new) (map fst ol) () h"
    by (simp add: st_update_round_def s_bind_def load_ranks_at[OF old])
  have "case for_loop (update_page g d rf ol) (map fst ol) nw of
        Inl e \<Rightarrow> fst (s_fold (st_update_page corpus d rf old new) (map fst ol) () h) = Inl e
      | Inr s' \<Rightarrow> s_fold (st_update_page corpus d rf old new) (map fst ol) () h
                  = (Inr (), h[new := Ranks s'])"
  proof (rule s_fold_refines[where ok = "\<lambda>h. corpus < length h \<and> h ! corpus = Graph g
        \<and> old < length h \<and> h ! old = Ranks ol"])
    show "st_update_page corpus d rf old new x () h'
        = (case update_page g d rf ol x s of Inl e \<Rightarrow> (Inl e, h')
           | Inr s' \<Rightarrow> (Inr (), h'[new := Ranks s']))"
      if "new < length h'" "h' ! new = Ranks s"
        "corpus < length h' \<and> h' ! corpus = Graph g \<and> old < length h' \<and> h' ! old = Ranks ol"
      for x s h'
      using that
      by (simp add: st_update_page_def s_bind_def load_graph_def load_ranks_def
          s_lift_def store_obj_def split: sum.splits)
    show "corpus < length (h'[new := Ranks s']) \<and> h'[new := Ranks s'] ! corpus = Graph g
        \<and> old < length (h'[new := Ranks s']) \<and> h'[new := Ranks s'] ! old = Ranks ol"
      if "corpus < length h' \<and> h' ! corpus = Graph g \<and> old < length h' \<and> h' ! old = Ranks ol"
      for h' s'
      using that ne by simp
    show "new < length h" "h ! new = Ranks nw" by (rule new)+
    show "corpus < length h \<and> h ! corpus = Graph g \<and> old < length h \<and> h ! old = Ranks ol"
      using c old by simp
  qed
  then show ?thesis by (simp only: store update_round_def)
qed

lemma st_convergence_at:
  assumes "old < length h" "h ! old = Ranks ol" "new < length h" "h ! new = Ranks nw"
  shows "st_convergence old new h = (convergence nw ol (map fst nw), h)"
  using assms
  by (simp add: st_convergence_def s_bind_def load_ranks_def s_lift_def)

lemma st_copy_at:
  assumes "new < length h" "h ! new = Ranks nw"
  shows "st_copy new h = (Inr (length h), h @ [Ranks nw])"
  using assms by (simp add: st_copy_def s_bind_def load_ranks_def alloc_def)

lemma st_iterate_loop_refines_aux:
  assumes run: "iterate_loop g d rf ol nw = Some y"
  shows "\<forall>h corpus old new.
       corpus < length h \<and> h ! corpus = Graph g \<and> old < length h \<and> h ! old = Ranks ol
       \<and> new < length h \<and> h ! new = Ranks nw \<and> corpus \<noteq> new \<and> old \<noteq> new \<longrightarrow>
       (case y of
          Inl e \<Rightarrow> \<exists>h'. st_iterate_loop corpus d rf old new h = Some (Inl e, h')
        | Inr r \<Rightarrow> \<exists>h'. st_iterate_loop corpus d rf old new h = Some (Inr new, h')
                     \<and> new < length h' \<and> h' ! new = Ranks r)"
proof (rule iterate_loop.raw_induct[where
      P = "\<lambda>g d rf ol nw y. \<forall>h corpus old new.
       corpus < length h \<and> h ! corpus = Graph g \<and> old < length h \<and> h ! old = Ranks ol
       \<and> new < length h \<and> h ! new = Ranks nw \<and> corpus \<noteq> new \<and> old \<noteq> new \<longrightarrow>
       (case y of
          Inl e \<Rightarrow> \<exists>h'. st_iterate_loop corpus d rf old new h = Some (Inl e, h')
        | Inr r \<Rightarrow> \<exists>h'. st_iterate_loop corpus d rf old new h = Some (Inr new, h')
                     \<and> new < length h' \<and> h' ! new = Ranks r)",
      OF _ run])
  fix loop :: "'a corpus \<Rightarrow> real \<Rightarrow> real \<Rightarrow> 'a ranks \<Rightarrow> 'a ranks \<Rightarrow> (py_error + 'a ranks) option"
  fix g :: "'a corpus" and d rf :: real and ol nw :: "'a ranks"
    and y :: "py_error + 'a ranks"
  assume IH: "\<And>g d rf ol nw y. loop g d rf ol nw = Some y \<Longrightarrow>
      \<forall>h corpus old new.
       corpus < length h \<and> h ! corpus = Graph g \<and> old < length h \<and> h ! old = Ranks ol
       \<and> new < length h \<and> h ! new = Ranks nw \<and> corpus \<noteq> new \<and> old \<noteq> new \<longrightarrow>
       (case y of
          Inl e \<Rightarrow> \<exists>h'. st_iterate_loop corpus d rf old new h = Some (Inl e, h')
        | Inr r \<Rightarrow> \<exists>h'. st_iterate_loop corpus d rf old new h = Some (Inr new, h')
                     \<and> new < length h' \<and> h' ! new = Ranks r)"
  assume body: "(case update_round g d rf ol nw of
        Inl e \<Rightarrow> Some (Inl e)
      | Inr new_pagerank' \<Rightarrow>
          (case convergence new_pagerank' ol (map fst new_pagerank') of
             Inl e \<Rightarrow> Some (Inl e)
           | Inr converged \<Rightarrow>
               if converged then Some (Inr new_pagerank')
               else loop g d rf new_pagerank' new_pagerank')) = Some y"
  show "\<forall>h corpus old new.
       corpus < length h \<and> h ! corpus = Graph g \<and> old < length h \<and> h ! old = Ranks ol
       \<and> new < length h \<and> h ! new = Ranks nw \<and> corpus \<noteq> new \<and> old \<noteq> new \<longrightarrow>
       (case y of
          Inl e \<Rightarrow> \<exists>h'. st_iterate_loop corpus d rf old new h = Some (Inl e, h')
        | Inr r \<Rightarrow> \<exists>h'. st_iterate_loop corpus d rf old new h = Some (Inr new, h')
                     \<and> new < length h' \<and> h' ! new = Ranks r)"
  proof (intro allI impI, elim conjE)
    fix h :: "'a store" and corpus old new :: nat
    assume c: "corpus < length h" "h ! corpus = Graph g"
      and old: "old < length h" "h ! old = Ranks ol"
      and new: "new < length h" "h ! new = Ranks nw"
      and ne: "corpus \<noteq> new" "old \<noteq> new"
    note round = st_update_round_refines[OF c old new ne, of d rf]
    show "case y of
          Inl e \<Rightarrow> \<exists>h'. st_iterate_loop corpus d rf old new h = Some (Inl e, h')
        | Inr r \<Rightarrow> \<exists>h'. st_iterate_loop corpus d rf old new h = Some (Inr new, h')
                     \<and> new < length h' \<and> h' ! new = Ranks r"
    proof (cases "update_round g d rf ol nw")
      case (Inl e)
      with round obtain h1 where "st_update_round corpus d rf old new h = (Inl e, h1)"
        by (cases "st_update_round corpus d rf old new h") auto
      with body Inl show ?thesis
        by (subst st_iterate_loop.simps) auto
    next
      case (Inr nw')
      let ?h1 = "h[new := Ranks nw']"
      from round Inr have r1: "st_update_round corpus d rf old new h = (Inr (), ?h1)"
        by simp
      have conv: "st_convergence old new ?h1 = (convergence nw' ol (map fst nw'), ?h1)"
        using old new ne by (intro st_convergence_at) simp_all
      show ?thesis
      proof (cases "convergence nw' ol (map fst nw')")
        case (Inl e)
        with body Inr r1 conv show ?thesis
          by (subst st_iterate_loop.simps) auto
      next
        case cv: (Inr converged)
        show ?thesis
        proof (cases converged)
          case True
          with body Inr cv have "y = Inr nw'" by simp
          moreover have "st_iterate_loop corpus d rf old new h = Some (Inr new, ?h1)"
            using r1 conv cv True by (subst st_iterate_loop.simps) simp
          ultimately show ?thesis using new by simp
        next
          case False
          let ?h2 = "?h1 @ [Ranks nw']"
          have copy: "st_copy new ?h1 = (Inr (length h), ?h2)"
            using st_copy_at[of new ?h1 nw'] new by simp
          from body Inr cv False have "loop g d rf nw' nw' = Some y" by simp
          from IH[OF this, rule_format, of corpus ?h2 "length h" new]
          have "case y of
              Inl e \<Rightarrow> \<exists>h'. st_iterate_loop corpus d rf (length h) new ?h2 = Some (Inl e, h')
            | Inr r \<Rightarrow> \<exists>h'. st_iterate_loop corpus d rf (length h) new ?h2 = Some (Inr new, h')
                     \<and> new < length h' \<and> h' ! new = Ranks r"
            using c new ne by (simp add: nth_append)
          moreover have "st_iterate_loop corpus d rf old new h
              = st_iterate_loop corpus d rf (length h) new ?h2"
            using r1 conv cv False copy by (subst st_iterate_loop.simps) simp
          ultimately show ?thesis by (cases y) simp_all
        qed
      qed
    qed
  qed
qed

lemma st_iterate_pagerank_refines:
  assumes c: "corpus < length h" "h ! corpus = Graph g"
    and run: "iterate_pagerank g d = Some y"
  shows "case y of
          Inl e \<Rightarrow> \<exists>h'. st_iterate_pagerank corpus d h = Some (Inl e, h')
        | Inr r \<Rightarrow> \<exists>h'. st_iterate_pagerank corpus d h = Some (Inr (Suc (length h)), h')
                     \<and> Suc (length h) < length h' \<and> h' ! Suc (length h) = Ranks r"
proof (cases "g = []")
  case True
  with run have "y = Inl ZeroDivisionError"
    by (simp add: iterate_pagerank_def truediv_def)
  moreover have "\<exists>h'. st_iterate_pagerank corpus d h = Some (Inl ZeroDivisionError, h')"
    using True
    by (simp add: st_iterate_pagerank_def st_iterate_setup_def s_bind_def
        load_graph_at[OF c] s_lift_def alloc_def truediv_def)
  ultimately show ?thesis by simp
next
  case False
  let ?rf = "(1 - d) / real (length g)"
  let ?ol = "uniform_ranks g"
  let ?nw = "map (\<lambda>key. (key, 0::real)) (map fst g)"
  let ?h1 = "h @ [Ranks ?ol, Ranks ?nw]"
  have ini: "st_iterate_setup corpus d h = (Inr (length h, Suc (length h), ?rf), ?h1)"
    using False
    by (simp add: st_iterate_setup_def s_bind_def load_graph_at[OF c] s_lift_def alloc_def
        initial_ranks_closed truediv_nonzero uniform_ranks_def s_return_def)
  from run have "iterate_loop g d ?rf ?ol ?nw = Some y"
    by (simp only: iterate_pagerank_unfold[OF False])
  from st_iterate_loop_refines_aux[OF this, rule_format, of corpus ?h1 "length h"
      "Suc (length h)"] c
  have "case y of
          Inl e \<Rightarrow> \<exists>h'. st_iterate_loop corpus d ?rf (length h) (Suc (length h)) ?h1
                       = Some (Inl e, h')
        | Inr r \<Rightarrow> \<exists>h'. st_iterate_loop corpus d ?rf (length h) (Suc (length h)) ?h1
                       = Some (Inr (Suc (length h)), h')
                     \<and> Suc (length h) < length h' \<and> h' ! Suc (length h) = Ranks r"
    by (simp add: nth_append)
  then show ?thesis
    by (cases y) (simp_all add: st_iterate_pagerank_def ini)
qed

lemma st_sample_step_refines:
  assumes c: "corpus < length h" "h ! corpus = Graph g"
    and s: "sample < length h" "h ! sample = Pages smp"
  shows "case sample_step rng g d i (choice, smp) of
           Inl e \<Rightarrow> fst (st_sample_step rng corpus d sample i choice h) = Inl e
         | Inr (choice', smp') \<Rightarrow>
             \<exists>h'. st_sample_step rng corpus d sample i choice h = (Inr choice', h')
               \<and> length h \<le> length h' \<and> h' ! sample = Pages smp'
               \<and> (\<forall>a < length h. a \<noteq> sample \<longrightarrow> h' ! a = h ! a)"
proof (cases "transition_model g choice d")
  case (Inl e)
  with st_transition_model_refines[OF c, of choice d]
  have "fst (st_transition_model corpus choice d h) = Inl e" by simp
  then obtain h1 where "st_transition_model corpus choice d h = (Inl e, h1)"
    by (cases "st_transition_model corpus choice d h") auto
  with Inl show ?thesis
    by (simp add: sample_step_def st_sample_step_def s_bind_def)
next
  case (Inr model)
  let ?h1 = "h @ [Ranks model]"
  from st_transition_model_refines[OF c, of choice d] Inr
  have tm: "st_transition_model corpus choice d h = (Inr (length h), ?h1)" by simp
  have ld: "load_ranks (length h) ?h1 = (Inr model, ?h1)"
    by (simp add: load_ranks_def)
  show ?thesis
  proof (cases "model = []")
    case True
    with Inr tm ld show ?thesis
      by (simp add: sample_step_def st_sample_step_def s_bind_def s_lift_def)
  next
    case False
    show ?thesis
    proof (cases "random_choices_first (rng (Suc i)) (map fst model) (map snd model)")
      case (Inl e)
      with Inr tm ld False show ?thesis
        by (simp add: sample_step_def st_sample_step_def s_bind_def s_lift_def Let_def)
    next
      case pick: (Inr choice')
      let ?h2 = "?h1[sample := Pages (smp @ [choice'])]"
      have ap: "append_page sample choice' ?h1 = (Inr (), ?h2)"
        using s by (simp add: append_page_def s_bind_def load_pages_def store_obj_def
            nth_append)
      have run: "st_sample_step rng corpus d sample i choice h = (Inr choice', ?h2)"
        using tm ld False pick ap
        by (simp add: st_sample_step_def s_bind_def s_lift_def s_return_def)
      have pure: "sample_step rng g d i (choice, smp) = Inr (choice', smp @ [choice'])"
        using Inr False pick by (simp add: sample_step_def Let_def)
      have "length h \<le> length ?h2" by simp
      moreover have "?h2 ! sample = Pages (smp @ [choice'])"
        using s by simp
      moreover have "\<forall>a < length h. a \<noteq> sample \<longrightarrow> ?h2 ! a = h ! a"
        by (simp add: nth_append)
      ultimately show ?thesis
        using run pure by simp
    qed
  qed
qed

lemma st_sample_loop_refines:
  assumes "corpus < length h" "h ! corpus = Graph g"
    and "sample < length h" "h ! sample = Pages smp" and "corpus \<noteq> sample"
  shows "case for_loop (sample_step rng g d) is (choice, smp) of
           Inl e \<Rightarrow> fst (s_fold (st_sample_step rng corpus d sample) is choice h) = Inl e
         | Inr (choice', smp') \<Rightarrow>
             \<exists>h'. s_fold (st_sample_step rng corpus d sample) is choice h = (Inr choice', h')
               \<and> length h \<le> length h' \<and> h' ! sample = Pages smp'
               \<and> (\<forall>a < length h. a \<noteq> sample \<longrightarrow> h' ! a = h ! a)"
  using assms
proof (induction "is" arbitrary: choice smp h)
  case Nil
  then show ?case by (simp add: s_return_def)
next
  case (Cons i "is")
  note step = st_sample_step_refines[OF Cons.prems(1-4), of rng d i choice]
  show ?case
  proof (cases "sample_step rng g d i (choice, smp)")
    case (Inl e)
    with step obtain h1 where "st_sample_step rng corpus d sample i choice h = (Inl e, h1)"
      by (cases "st_sample_step rng corpus d sample i choice h") auto
    with Inl show ?thesis by (simp add: s_bind_def)
  next
    case (Inr st)
    obtain choice1 smp1 where st: "st = (choice1, smp1)" by (cases st)
    from step Inr st obtain h1 where
      run: "st_sample_step rng corpus d sample i choice h = (Inr choice1, h1)"
      and len: "length h \<le> length h1" and smp1: "h1 ! sample = Pages smp1"
      and same: "\<forall>a < length h. a \<noteq> sample \<longrightarrow> h1 ! a = h ! a"
      by auto
    have c1: "corpus < length h1" "h1 ! corpus = Graph g"
      using Cons.prems(1,2,5) len same by auto
    have s1: "sample < length h1" using Cons.prems(3) len by simp
    note rest = Cons.IH[OF c1 s1 smp1 Cons.prems(5), of choice1]
    show ?thesis
    proof (cases "for_loop (sample_step rng g d) is (choice1, smp1)")
      case (Inl e)
      with rest Inr st run show ?thesis by (simp add: s_bind_def)
    next
      case fin: (Inr st2)
      obtain choice2 smp2 where st2: "st2 = (choice2, smp2)" by (cases st2)
      from rest fin st2 obtain h2 where
        run2: "s_fold (st_sample_step rng corpus d sample) is choice1 h1 = (Inr choice2, h2)"
        and len2: "length h1 \<le> length h2" and smp2: "h2 ! sample = Pages smp2"
        and same2: "\<forall>a < length h1. a \<noteq> sample \<longrightarrow> h2 ! a = h1 ! a"
        by auto
      have "s_fold (st_sample_step rng corpus d sample) (i # is) choice h = (Inr choice2, h2)"
        using run run2 by (simp add: s_bind_def)
      moreover have "length h \<le> length h2" using len len2 by simp
      moreover have "\<forall>a < length h. a \<noteq> sample \<longrightarrow> h2 ! a = h ! a"
        using same same2 len by auto
      ultimately show ?thesis
        using Inr st fin st2 smp2 by simp
    qed
  qed
qed

lemma map_of_of_counts: "map_of (of_counts sol) k = map_option real_of_int (map_of sol k)"
  by (induction sol) (auto simp: of_counts_def)

lemma update_of_counts:
  "AList.update k (real_of_int v) (of_counts sol) = of_counts (AList.update k v sol)"
  by (induction sol) (auto simp: of_counts_def)

lemma count_step_real_of_counts:
  "count_step_real item (of_counts sol)
     = (case count_step item sol of Inl e \<Rightarrow> Inl e | Inr sol' \<Rightarrow> Inr (of_counts sol'))"
proof (cases "map_of sol item")
  case None
  then show ?thesis
    by (simp add: count_step_real_def count_step_def getitem_def map_of_of_counts)
next
  case (Some c)
  have "AList.update item (real_of_int c + 1) (of_counts sol)
      = of_counts (AList.update item (c + 1) sol)"
    using update_of_counts[of item "c + 1" sol] by simp
  with Some show ?thesis
    by (simp add: count_step_real_def count_step_def getitem_def map_of_of_counts)
qed

lemma count_loop_of_counts:
  "for_loop count_step_real items (of_counts sol)
     = (case for_loop count_step items sol of
          Inl e \<Rightarrow> Inl e | Inr sol' \<Rightarrow> Inr (of_counts sol'))"
proof (induction items arbitrary: sol)
  case Nil
  show ?case by simp
next
  case (Cons item items)
  show ?case
    by (cases "count_step item sol") (simp_all add: count_step_real_of_counts Cons.IH)
qed

lemma count_step_keys:
  assumes "count_step item sol = Inr sol'"
  shows "map fst sol' = map fst sol"
proof (cases "map_of sol item")
  case None
  with assms show ?thesis by (simp add: count_step_def getitem_def)
next
  case (Some c)
  then have "item \<in> fst ` set sol" by (metis domI dom_map_of_conv_image_fst)
  then have "map fst (AList.update item (c + 1) sol) = map fst sol"
    by (simp add: update_keys)
  with assms Some show ?thesis
    by (auto simp: count_step_def getitem_def)
qed

lemma count_loop_keys:
  "for_loop count_step items sol = Inr sol' \<Longrightarrow> map fst sol' = map fst sol"
proof (induction items arbitrary: sol)
  case Nil
  then show ?case by simp
next
  case (Cons item items)
  show ?case
  proof (cases "count_step item sol")
    case (Inl e)
    with Cons.prems show ?thesis by simp
  next
    case (Inr sol1)
    with Cons.prems have "for_loop count_step items sol1 = Inr sol'" by simp
    from Cons.IH[OF this] count_step_keys[OF Inr] show ?thesis by simp
  qed
qed

lemma normalise_loop_closed:
  assumes dist: "distinct (map fst s)" and m: "m \<noteq> 0"
  shows "for_loop (normalise_step m) (map fst s) s
     = Inr (map (\<lambda>(k, v). (k, v / real m)) s)"
proof -
  have "for_loop (normalise_step m) (map fst s) s
     = Inr (map (\<lambda>(k, v). (k, if k \<in> set (map fst s) then v / real m else v)) s)"
  proof (rule for_loop_pointwise)
    show "normalise_step m k s' = Inr (AList.update k (v / real m) s')"
      if "map_of s' k = Some v" for k s' v
      using that m by (simp add: normalise_step_def getitem_Some truediv_nonzero)
    show "distinct (map fst s)" "distinct (map fst s)" by (rule dist)+
    show "set (map fst s) \<subseteq> fst ` set s" by simp
  qed
  moreover have "map (\<lambda>(k, v). (k, if k \<in> set (map fst s) then v / real m else v)) s
      = map (\<lambda>(k, v). (k, v / real m)) s"
    by (rule map_cong[OF refl]) force
  ultimately show ?thesis by simp
qed

lemma normalise_of_counts:
  assumes "distinct (map fst sol)" and "m \<noteq> 0"
  shows "normalise sol m = for_loop (normalise_step m) (map fst (of_counts sol)) (of_counts sol)"
proof -
  have keys: "map fst (of_counts sol) = map fst sol"
    by (induction sol) (auto simp: of_counts_def)
  have "for_loop (normalise_step m) (map fst (of_counts sol)) (of_counts sol)
      = Inr (map (\<lambda>(k, v). (k, v / real m)) (of_counts sol))"
    by (rule normalise_loop_closed) (simp_all add: keys assms)
  also have "map (\<lambda>(k, v). (k, v / real m)) (of_counts sol)
      = map (\<lambda>(key, c). (key, real_of_int c / real m)) sol"
    by (induction sol) (auto simp: of_counts_def)
  finally show ?thesis
    by (simp only: normalise_closed[OF assms(2)])
qed

lemma sample_step_grows:
  "sample_step rng g d i (choice, smp) = Inr (choice', smp') \<Longrightarrow> smp' \<noteq> []"
  by (auto simp: sample_step_def py_bind_def Let_def split: sum.splits if_splits)

lemma sample_loop_nonempty:
  "for_loop (sample_step rng g d) is (choice, smp) = Inr (choice', smp')
   \<Longrightarrow> smp \<noteq> [] \<Longrightarrow> smp' \<noteq> []"
proof (induction "is" arbitrary: choice smp)
  case Nil
  then show ?case by simp
next
  case (Cons i "is")
  show ?case
  proof (cases "sample_step rng g d i (choice, smp)")
    case (Inl e)
    with Cons.prems show ?thesis by simp
  next
    case (Inr st)
    obtain c1 s1 where st: "st = (c1, s1)" by (cases st)
    with Inr have "s1 \<noteq> []" by (auto dest: sample_step_grows)
    moreover from Cons.prems Inr st
    have "for_loop (sample_step rng g d) is (c1, s1) = Inr (choice', smp')" by simp
    ultimately show ?thesis by (rule Cons.IH[rotated])
  qed
qed

lemma sample_chain_nonempty:
  "sample_chain rng g d n = Inr (choice, smp) \<Longrightarrow> smp \<noteq> []"
  by (auto simp: sample_chain_def py_bind_def split: sum.splits if_splits
      dest: sample_loop_nonempty)

lemma st_count_step_as_step:
  assumes "solution < length h" "h ! solution = Ranks s"
  shows "st_count_step solution item () h
     = (case count_step_real item s of Inl e \<Rightarrow> (Inl e, h)
        | Inr s' \<Rightarrow> (Inr (), h[solution := Ranks s']))"
  using assms
  by (simp add: st_count_step_def count_step_real_def s_bind_def load_ranks_def s_lift_def
      store_obj_def py_bind_def split: sum.splits)

lemma st_normalise_step_as_step:
  assumes "solution < length h" "h ! solution = Ranks s"
  shows "st_normalise_step solution m key () h
     = (case normalise_step m key s of Inl e \<Rightarrow> (Inl e, h)
        | Inr s' \<Rightarrow> (Inr (), h[solution := Ranks s']))"
  using assms
  by (simp add: st_normalise_step_def normalise_step_def s_bind_def load_ranks_def s_lift_def
      store_obj_def py_bind_def split: sum.splits)

lemma st_tally_refines:
  assumes s: "sample < length h" "h ! sample = Pages smp"
    and sol: "solution < length h" "h ! solution = Ranks (of_counts sol0)"
    and ne: "sample \<noteq> solution"
    and dist: "distinct (map fst sol0)" and smp: "smp \<noteq> []"
  shows "case py_bind (for_loop count_step smp sol0) (\<lambda>sol'. normalise sol' (length smp)) of
           Inl e \<Rightarrow> fst (st_tally sample solution h) = Inl e
         | Inr r \<Rightarrow> \<exists>h'. st_tally sample solution h = (Inr solution, h')
                      \<and> h' ! solution = Ranks r"
proof -
  have count: "case for_loop count_step_real smp (of_counts sol0) of
        Inl e \<Rightarrow> fst (s_fold (st_count_step solution) smp () h) = Inl e
      | Inr s' \<Rightarrow> s_fold (st_count_step solution) smp () h
                  = (Inr (), h[solution := Ranks s'])"
  proof (rule s_fold_refines[where ok = "\<lambda>h. True"])
    show "st_count_step solution x () h'
        = (case count_step_real x s of Inl e \<Rightarrow> (Inl e, h')
           | Inr s' \<Rightarrow> (Inr (), h'[solution := Ranks s']))"
      if "solution < length h'" "h' ! solution = Ranks s" for x s h'
      by (rule st_count_step_as_step[OF that])
  qed (simp_all add: sol)
  have unfold: "st_tally sample solution h
      = s_bind (s_fold (st_count_step solution) smp ()) (\<lambda>u.
        s_bind (load_ranks solution) (\<lambda>s.
        s_bind (s_fold (st_normalise_step solution (length smp)) (map fst s) ()) (\<lambda>u.
          s_return solution))) h"
    by (simp add: st_tally_def s_bind_def load_pages_at[OF s])
  show ?thesis
  proof (cases "for_loop count_step smp sol0")
    case (Inl e)
    with count have "fst (s_fold (st_count_step solution) smp () h) = Inl e"
      by (simp add: count_loop_of_counts)
    then obtain h1 where "s_fold (st_count_step solution) smp () h = (Inl e, h1)"
      by (cases "s_fold (st_count_step solution) smp () h") auto
    with Inl show ?thesis
      by (simp add: unfold s_bind_def)
  next
    case (Inr sol')
    let ?s1 = "of_counts sol'"
    let ?h1 = "h[solution := Ranks ?s1]"
    from count Inr have c1: "s_fold (st_count_step solution) smp () h = (Inr (), ?h1)"
      by (simp add: count_loop_of_counts)
    have keys: "map fst sol' = map fst sol0"
      by (rule count_loop_keys[OF Inr])
    then have dist': "distinct (map fst sol')" using dist by simp
    have m: "length smp \<noteq> 0" using smp by simp
    have h1: "solution < length ?h1" "?h1 ! solution = Ranks ?s1"
      using sol by simp_all
    obtain r where r: "normalise sol' (length smp) = Inr r"
      by (simp add: normalise_closed[OF m])
    then have loop: "for_loop (normalise_step (length smp)) (map fst ?s1) ?s1 = Inr r"
      by (simp only: normalise_of_counts[OF dist' m])
    have "case for_loop (normalise_step (length smp)) (map fst ?s1) ?s1 of
        Inl e \<Rightarrow> fst (s_fold (st_normalise_step solution (length smp)) (map fst ?s1) () ?h1)
                  = Inl e
      | Inr s' \<Rightarrow> s_fold (st_normalise_step solution (length smp)) (map fst ?s1) () ?h1
                  = (Inr (), ?h1[solution := Ranks s'])"
    proof (rule s_fold_refines[where ok = "\<lambda>h. True"])
      show "st_normalise_step solution (length smp) x () h'
          = (case normalise_step (length smp) x s of Inl e \<Rightarrow> (Inl e, h')
             | Inr s' \<Rightarrow> (Inr (), h'[solution := Ranks s']))"
        if "solution < length h'" "h' ! solution = Ranks s" for x s h'
        by (rule st_normalise_step_as_step[OF that])
    qed (use sol in simp_all)
    with loop have n1: "s_fold (st_normalise_step solution (length smp)) (map fst ?s1) () ?h1
        = (Inr (), ?h1[solution := Ranks r])"
      by simp
    have "st_tally sample solution h = (Inr solution, ?h1[solution := Ranks r])"
      by (simp add: unfold s_bind_def c1 load_ranks_at[OF h1] n1 s_return_def)
    moreover have "?h1[solution := Ranks r] ! solution = Ranks r"
      using sol(1) by simp
    ultimately show ?thesis
      using Inr r by simp
  qed
qed

lemma st_sample_pagerank_refines:
  assumes c: "corpus < length h" "h ! corpus = Graph g"
    and dist: "distinct (map fst g)"
  shows "case sample_pagerank rng g d n of
           Inl e \<Rightarrow> fst (st_sample_pagerank rng corpus d n h) = Inl e
         | Inr r \<Rightarrow> \<exists>h'. st_sample_pagerank rng corpus d n h = (Inr (length h + 2), h')
                      \<and> h' ! (length h + 2) = Ranks r"
proof (cases "g = []")
  case True
  have "sample_pagerank rng g d n = Inl IndexError"
    using True by (simp add: sample_pagerank_def sample_chain_def random_choice_def)
  moreover have "fst (st_sample_pagerank rng corpus d n h) = Inl IndexError"
    using True c
    by (simp add: st_sample_pagerank_def s_bind_def alloc_def load_graph_def load_pages_def
        s_lift_def random_choice_def nth_append)
  ultimately show ?thesis by simp
next
  case False
  let ?keys = "map fst g"
  let ?a = "length h"
  let ?choice = "?keys ! (rng 0 mod length ?keys)"
  let ?zeros = "map (\<lambda>key. (key, 0::int)) ?keys"
  let ?hD = "h @ [Pages [?choice], Pages ?keys, Ranks (of_counts ?zeros)]"
  let ?loop = "if n > 1
      then s_fold (st_sample_step rng corpus d ?a) [0 ..< nat (n - 1)] ?choice
      else s_return ?choice"
  have zeros: "of_counts ?zeros = map (\<lambda>key. (key, 0::real)) ?keys"
    by (simp add: of_counts_def comp_def)
  have store: "st_sample_pagerank rng corpus d n h
      = s_bind ?loop (\<lambda>choice'. st_tally ?a (?a + 2)) ?hD"
    using False c
    by (simp add: st_sample_pagerank_def s_bind_def alloc_def load_graph_def load_pages_def
        s_lift_def random_choice_def append_page_def store_obj_def nth_append zeros
        del: map_map cong: prod.case_cong sum.case_cong)
  have chain: "sample_chain rng g d n
      = (if n > 1 then for_loop (sample_step rng g d) [0 ..< nat (n - 1)] (?choice, [?choice])
         else Inr (?choice, [?choice]))"
    using False by (simp add: sample_chain_def random_choice_def)
  have pure: "sample_pagerank rng g d n
      = py_bind (sample_chain rng g d n) (\<lambda>(choice, sample).
          py_bind (for_loop count_step sample ?zeros) (\<lambda>sol'. normalise sol' (length sample)))"
    by (simp add: sample_pagerank_def Let_def)
  have cD: "corpus < length ?hD" "?hD ! corpus = Graph g"
    using c by (simp_all add: nth_append)
  have sD: "?a < length ?hD" "?hD ! ?a = Pages [?choice]" by simp_all
  have neq: "corpus \<noteq> ?a" using c(1) by simp
  have solD: "?hD ! (?a + 2) = Ranks (of_counts ?zeros)" by (simp add: nth_append)
  have lp: "case sample_chain rng g d n of
        Inl e \<Rightarrow> fst (?loop ?hD) = Inl e
      | Inr (choice', smp') \<Rightarrow>
          \<exists>h'. ?loop ?hD = (Inr choice', h')
            \<and> length ?hD \<le> length h' \<and> h' ! ?a = Pages smp'
            \<and> (\<forall>b < length ?hD. b \<noteq> ?a \<longrightarrow> h' ! b = ?hD ! b)"
  proof (cases "n > 1")
    case True
    with st_sample_loop_refines[OF cD sD neq, of rng d "[0 ..< nat (n - 1)]" ?choice]
    show ?thesis by (simp only: chain if_True)
  next
    case False
    then show ?thesis
      by (simp add: chain s_return_def)
  qed
  show ?thesis
  proof (cases "sample_chain rng g d n")
    case (Inl e)
    with lp have "fst (?loop ?hD) = Inl e" by simp
    then obtain h1 where "?loop ?hD = (Inl e, h1)"
      by (cases "?loop ?hD") auto
    then have "fst (st_sample_pagerank rng corpus d n h) = Inl e"
      by (simp add: store s_bind_def)
    with Inl show ?thesis by (simp add: pure)
  next
    case (Inr st)
    obtain choice' smp' where st: "st = (choice', smp')" by (cases st)
    from lp Inr st obtain hE where
      run: "?loop ?hD = (Inr choice', hE)"
      and len: "length ?hD \<le> length hE" and smpE: "hE ! ?a = Pages smp'"
      and same: "\<forall>b < length ?hD. b \<noteq> ?a \<longrightarrow> hE ! b = ?hD ! b"
      by auto
    have nonempty: "smp' \<noteq> []"
      using Inr st by (auto dest: sample_chain_nonempty)
    have sE: "?a < length hE" using len by simp
    have solE: "?a + 2 < length hE" "hE ! (?a + 2) = Ranks (of_counts ?zeros)"
      using len same solD by simp_all
    have distz: "distinct (map fst ?zeros)"
      using dist by (simp add: comp_def)
    note tally = st_tally_refines[OF sE smpE solE _ distz nonempty]
    have tl: "case py_bind (for_loop count_step smp' ?zeros)
                  (\<lambda>sol'. normalise sol' (length smp')) of
           Inl e \<Rightarrow> fst (st_tally ?a (?a + 2) hE) = Inl e
         | Inr r \<Rightarrow> \<exists>h'. st_tally ?a (?a + 2) hE = (Inr (?a + 2), h')
                      \<and> h' ! (?a + 2) = Ranks r"
      by (rule tally) simp
    have p2: "sample_pagerank rng g d n
        = py_bind (for_loop count_step smp' ?zeros) (\<lambda>sol'. normalise sol' (length smp'))"
      by (simp add: pure Inr st)
    have s2: "st_sample_pagerank rng corpus d n h = st_tally ?a (?a + 2) hE"
      unfolding store by (simp only: s_bind_def run split_conv sum.case)
    show ?thesis
      unfolding p2 s2 by (rule tl)
  qed
qed

subsection \<open>The sampling estimator returns a distribution\<close>

lemma transition_model_weights:
  assumes dist: "distinct (map fst g)" and page: "map_of g page = Some links"
    and d: "0 \<le> d" "d < 1"
  shows "\<exists>model. transition_model g page d = Inr model \<and> map fst model = map fst g
     \<and> model \<noteq> [] \<and> 0 < sum_list (map snd model)"
proof -
  let ?rf = "(1 - d) / real (length g)"
  let ?f = "\<lambda>key. ?rf + (if key |\<in>| links then d / real (fcard links) else 0)"
  let ?model = "map (\<lambda>(key, out). (key, ?f key)) g"
  from page have ne: "g \<noteq> []" by auto
  have tm: "transition_model g page d = Inr ?model"
    by (rule transition_model_closed[OF dist page])
  have keys: "map fst ?model = map fst g" by (induction g) auto
  have "(\<Sum>e \<leftarrow> g. ?rf) \<le> (\<Sum>e \<leftarrow> g. ?f (fst e))"
    by (rule sum_list_mono) (use d in simp)
  moreover have "(\<Sum>e \<leftarrow> g. ?rf) = 1 - d"
    using ne by (simp add: sum_list_triv)
  moreover have "sum_list (map snd ?model) = (\<Sum>e \<leftarrow> g. ?f (fst e))"
    by (simp add: comp_def case_prod_beta)
  ultimately have "0 < sum_list (map snd ?model)" using d by simp
  with tm keys ne show ?thesis by (intro exI[of _ ?model]) simp
qed

lemma sample_step_succeeds:
  assumes dist: "distinct (map fst g)" and d: "0 \<le> d" "d < 1"
    and choice: "choice \<in> set (map fst g)"
  shows "\<exists>choice'. choice' \<in> set (map fst g)
     \<and> sample_step rng g d i (choice, smp) = Inr (choice', smp @ [choice'])"
proof -
  from map_of_keys_Some[OF refl choice] obtain links where "map_of g choice = Some links" ..
  from transition_model_weights[OF dist this d]
  obtain model where tm: "transition_model g choice d = Inr model"
    and keys: "map fst model = map fst g" and ne: "model \<noteq> []"
    and pos: "0 < sum_list (map snd model)"
    by blast
  let ?choice' = "map fst model ! (rng (Suc i) mod length (map fst model))"
  have "random_choices_first (rng (Suc i)) (map fst model) (map snd model) = Inr ?choice'"
    using pos by (simp add: random_choices_first_def)
  then have "sample_step rng g d i (choice, smp) = Inr (?choice', smp @ [?choice'])"
    using tm ne by (simp add: sample_step_def Let_def)
  moreover have "?choice' \<in> set (map fst model)"
    using ne by (intro nth_mem) simp
  ultimately show ?thesis using keys by auto
qed

lemma sample_loop_succeeds:
  assumes dist: "distinct (map fst g)" and d: "0 \<le> d" "d < 1"
  shows "choice \<in> set (map fst g) \<Longrightarrow> set smp \<subseteq> set (map fst g) \<Longrightarrow>
     \<exists>choice' smp'. for_loop (sample_step rng g d) is (choice, smp) = Inr (choice', smp')
       \<and> set smp' \<subseteq> set (map fst g) \<and> length smp' = length smp + length is"
proof (induction "is" arbitrary: choice smp)
  case Nil
  then show ?case by simp
next
  case (Cons i "is")
  from sample_step_succeeds[OF dist d Cons.prems(1), of rng i smp]
  obtain c1 where c1: "c1 \<in> set (map fst g)"
    and step: "sample_step rng g d i (choice, smp) = Inr (c1, smp @ [c1])"
    by blast
  have "set (smp @ [c1]) \<subseteq> set (map fst g)" using c1 Cons.prems(2) by simp
  from Cons.IH[OF c1 this] step show ?case by auto
qed

lemma sample_chain_succeeds:
  assumes ne: "g \<noteq> []" and dist: "distinct (map fst g)" and d: "0 \<le> d" "d < 1"
  shows "\<exists>choice smp. sample_chain rng g d n = Inr (choice, smp)
       \<and> set smp \<subseteq> set (map fst g) \<and> smp \<noteq> []
       \<and> int (length smp) = (if n > 1 then n else 1)"
proof -
  let ?c = "map fst g ! (rng 0 mod length (map fst g))"
  have c: "?c \<in> set (map fst g)" using ne by (intro nth_mem) simp
  have rc: "random_choice (rng 0) (map fst g) = Inr ?c"
    using ne by (simp add: random_choice_def)
  show ?thesis
  proof (cases "n > 1")
    case True
    from sample_loop_succeeds[OF dist d c, of "[?c]" rng "[0 ..< nat (n - 1)]"] c
    obtain choice' smp' where
      "for_loop (sample_step rng g d) [0 ..< nat (n - 1)] (?c, [?c]) = Inr (choice', smp')"
      "set smp' \<subseteq> set (map fst g)" "length smp' = 1 + nat (n - 1)"
      by auto
    with True rc show ?thesis
      by (auto simp: sample_chain_def)
  next
    case False
    with rc c show ?thesis by (simp add: sample_chain_def)
  qed
qed

lemma count_step_closed:
  assumes "distinct (map fst sol)" and "item \<in> set (map fst sol)"
  shows "count_step item sol
     = Inr (map (\<lambda>(k, c). (k, if k = item then c + 1 else c)) sol)"
proof -
  from map_of_keys_Some[OF refl assms(2)] obtain c where c: "map_of sol item = Some c" ..
  have "AList.update item (c + 1) sol
      = map (\<lambda>(k', v'). (k', if k' = item then c + 1 else v')) sol"
    by (rule update_as_map[OF assms(1) c])
  also have "\<dots> = map (\<lambda>(k, c). (k, if k = item then c + 1 else c)) sol"
  proof (rule map_cong[OF refl])
    fix x assume x: "x \<in> set sol"
    have "snd x = c" if "fst x = item"
    proof -
      from x that have "(item, snd x) \<in> set sol" by (cases x) auto
      with assms(1) have "map_of sol item = Some (snd x)" by (simp add: map_of_eq_Some_iff)
      with c show ?thesis by simp
    qed
    then show "(case x of (k', v') \<Rightarrow> (k', if k' = item then c + 1 else v'))
        = (case x of (k, c) \<Rightarrow> (k, if k = item then c + 1 else c))"
      by (cases x) auto
  qed
  finally show ?thesis using c by (simp add: count_step_def getitem_Some)
qed

lemma bump_sum:
  assumes "distinct (map fst sol)" and "item \<in> set (map fst sol)"
  shows "sum_list (map snd (map (\<lambda>(k, c). (k, if k = item then c + 1 else c)) sol))
     = sum_list (map snd sol) + (1::int)"
  using assms
proof (induction sol)
  case Nil
  then show ?case by simp
next
  case (Cons e sol)
  obtain k c where e: "e = (k, c)" by (cases e)
  show ?case
  proof (cases "k = item")
    case True
    with Cons.prems e have "item \<notin> fst ` set sol" by simp
    then have "map (\<lambda>(k, c). (k, if k = item then c + 1 else c)) sol = sol"
      by (induction sol) auto
    with True e show ?thesis by simp
  next
    case False
    with Cons e show ?thesis by simp
  qed
qed

lemma count_loop_closed:
  assumes dist: "distinct (map fst sol)"
  shows "set items \<subseteq> set (map fst sol) \<Longrightarrow> \<forall>c \<in> set (map snd sol). 0 \<le> c \<Longrightarrow>
     \<exists>sol'. for_loop count_step items sol = Inr sol' \<and> map fst sol' = map fst sol
       \<and> (\<forall>c \<in> set (map snd sol'). 0 \<le> c)
       \<and> sum_list (map snd sol') = sum_list (map snd sol) + int (length items)"
  using dist
proof (induction items arbitrary: sol)
  case Nil
  then show ?case by simp
next
  case (Cons item items)
  let ?sol1 = "map (\<lambda>(k, c). (k, if k = item then c + 1 else c)) sol"
  from Cons.prems have item: "item \<in> set (map fst sol)" by simp
  have step: "count_step item sol = Inr ?sol1"
    by (rule count_step_closed[OF Cons.prems(3) item])
  have keys1: "map fst ?sol1 = map fst sol" by (induction sol) auto
  have nonneg1: "\<forall>c \<in> set (map snd ?sol1). 0 \<le> c"
    using Cons.prems(2) by fastforce
  have sum1: "sum_list (map snd ?sol1) = sum_list (map snd sol) + 1"
    by (rule bump_sum[OF Cons.prems(3) item])
  have "set items \<subseteq> set (map fst ?sol1)" using Cons.prems(1) keys1 by simp
  moreover have "distinct (map fst ?sol1)" by (simp only: keys1 Cons.prems(3))
  ultimately obtain sol' where "for_loop count_step items ?sol1 = Inr sol'"
    "map fst sol' = map fst ?sol1" "\<forall>c \<in> set (map snd sol'). 0 \<le> c"
    "sum_list (map snd sol') = sum_list (map snd ?sol1) + int (length items)"
    using Cons.IH[OF _ nonneg1] by blast
  with step keys1 sum1 show ?case by simp
qed

text \<open>
  The sampling estimator on a graph with at least one page and a damping factor
  \<open>0 \<le> damping < 1\<close>: it raises nothing, whatever the random source and \<open>n\<close>, and returns a
  dictionary over the pages of the graph whose values are not negative and sum to \<open>1\<close>.
\<close>

lemma sample_pagerank_distribution:
  assumes ne: "g \<noteq> []" and dist: "distinct (map fst g)" and d: "0 \<le> d" "d < 1"
  shows "\<exists>r. sample_pagerank rng g d n = Inr r \<and> map fst r = map fst g
     \<and> (\<forall>v \<in> set (map snd r). 0 \<le> v) \<and> sum_list (map snd r) = 1"
proof -
  let ?zeros = "map (\<lambda>key. (key, 0::int)) (map fst g)"
  from sample_chain_succeeds[OF ne dist d, of rng n]
  obtain choice smp where chain: "sample_chain rng g d n = Inr (choice, smp)"
    and sub: "set smp \<subseteq> set (map fst g)" and smp: "smp \<noteq> []"
    by blast
  have kz: "map fst ?zeros = map fst g" by (simp add: comp_def)
  have "\<exists>sol'. for_loop count_step smp ?zeros = Inr sol' \<and> map fst sol' = map fst ?zeros
       \<and> (\<forall>c \<in> set (map snd sol'). 0 \<le> c)
       \<and> sum_list (map snd sol') = sum_list (map snd ?zeros) + int (length smp)"
  proof (rule count_loop_closed)
    show "distinct (map fst ?zeros)" by (simp only: kz dist)
    show "set smp \<subseteq> set (map fst ?zeros)" by (simp only: kz sub)
    show "\<forall>c \<in> set (map snd ?zeros). 0 \<le> c" by simp
  qed
  then obtain sol' where count: "for_loop count_step smp ?zeros = Inr sol'"
    and keys: "map fst sol' = map fst g"
    and nonneg: "\<forall>c \<in> set (map snd sol'). 0 \<le> c"
    and total: "sum_list (map snd sol') = int (length smp)"
    by (auto simp: kz comp_def)
  let ?m = "length smp"
  let ?r = "map (\<lambda>(key, c). (key, real_of_int c / real ?m)) sol'"
  have m: "?m \<noteq> 0" using smp by simp
  have run: "sample_pagerank rng g d n = Inr ?r"
    unfolding sample_pagerank_def Let_def chain
    by (simp only: py_bind_Inr split_conv count normalise_closed[OF m])
  have "map fst ?r = map fst g" using keys by (simp add: comp_def case_prod_beta)
  moreover have "\<forall>v \<in> set (map snd ?r). 0 \<le> v"
    using nonneg by fastforce
  moreover have "sum_list (map snd ?r) = 1"
  proof -
    have "sum_list (map snd ?r) = (\<Sum>e \<leftarrow> sol'. real_of_int (snd e) / real ?m)"
      by (simp add: comp_def case_prod_beta)
    also have "\<dots> = (\<Sum>e \<leftarrow> sol'. real_of_int (snd e)) / real ?m"
      by (induction sol') (simp_all add: add_divide_distrib)
    also have "(\<Sum>e \<leftarrow> sol'. real_of_int (snd e)) = real_of_int (sum_list (map snd sol'))"
      by (induction sol') simp_all
    finally show ?thesis using total m by simp
  qed
  ultimately show ?thesis using run by blast
qed

end
